theory Spec2Isabelle
  imports Main "HOL-Library.Code_Target_Nat"
begin

section \<open>The element type\<close>

text \<open>
  \<^verbatim>\<open>RawMemory<T>\<close> and \<^verbatim>\<open>Vector<T>\<close> of \<^verbatim>\<open>AdvancedVector/vector.h\<close> are templates over an
  element type \<^verbatim>\<open>T\<close>. What the container asks of \<^verbatim>\<open>T\<close> is a parameter of the model:
  the two type traits its \<^verbatim>\<open>if constexpr\<close> tests read, which of \<^verbatim>\<open>T\<close>'s operations throw
  (as a function of the source value), the value of \<^verbatim>\<open>T()\<close>, the state a move leaves
  its source in, and \<^verbatim>\<open>sizeof(T)\<close>. A copy or a move produces an object equal to its
  source; an operation of \<^verbatim>\<open>T\<close> that throws has no effect.
\<close>

record 'a elem_type =
  sizeof_elem :: nat
  nothrow_move_constructible :: bool
  copy_constructible :: bool
  value_init :: "'a option"
  copy_throws :: "'a \<Rightarrow> bool"
  move_throws :: "'a \<Rightarrow> bool"
  copy_assign_throws :: "'a \<Rightarrow> bool"
  move_assign_throws :: "'a \<Rightarrow> bool"
  moved_from :: "'a \<Rightarrow> 'a"

text \<open>A move constructor declared \<^verbatim>\<open>noexcept\<close> never lets an exception out.\<close>

definition move_fails :: "'a elem_type \<Rightarrow> 'a \<Rightarrow> bool" where
  "move_fails T x = (\<not> nothrow_move_constructible T \<and> move_throws T x)"

section \<open>Outcomes\<close>

text \<open>
  A call returns normally, leaves by an exception (\<^verbatim>\<open>std::bad_alloc\<close> of
  \<^verbatim>\<open>operator new\<close>, or an exception of an operation of \<^verbatim>\<open>T\<close>) in the state the unwinding
  left, or has undefined behaviour (a failed \<^verbatim>\<open>assert\<close>, an access outside a region or to
  a slot that holds no object).
\<close>

datatype exn = Bad_alloc | Elem_exn

datatype ('r, 's) outcome = Normal 'r | Raised exn 's | Undefined

fun raise_after :: "exn \<Rightarrow> 's option \<Rightarrow> ('r, 's) outcome" where
  "raise_after e None = Undefined"
| "raise_after e (Some s) = Raised e s"

section \<open>Raw memory\<close>

text \<open>
  A region of raw memory for \<open>n\<close> objects of \<^verbatim>\<open>T\<close> is a list of \<open>n\<close> slots; a slot is
  \<open>None\<close> while it is uninitialised and \<open>Some x\<close> while it holds a live object of value
  \<open>x\<close>. Address \<open>0\<close> is \<^verbatim>\<open>nullptr\<close>; the region at address \<open>p > 0\<close> is entry \<open>p - 1\<close> of
  \<open>blocks\<close>, \<open>None\<close> once it has been released; beside its slots a region records the
  number of bytes \<^verbatim>\<open>operator new\<close> was asked for. \<open>avail\<close> counts the bytes the allocator
  can still hand out; \<^verbatim>\<open>operator new\<close> throws \<^verbatim>\<open>std::bad_alloc\<close> when asked for more,
  \<^verbatim>\<open>operator delete\<close> gives the bytes of the region back, and an address is never handed
  out twice. A region of \<open>bytes\<close> bytes has room for \<open>bytes div sizeof(T)\<close> objects of
  \<^verbatim>\<open>T\<close>. A \<^verbatim>\<open>T*\<close> is a region's address and an offset into it.

  \<^verbatim>\<open>size_t\<close> has 64 bits. The product \<^verbatim>\<open>n * sizeof(T)\<close> of \<^verbatim>\<open>Allocate\<close>, whose factor \<open>n\<close>
  the caller of \<^verbatim>\<open>Reserve\<close> or of a constructor chooses, is taken modulo \<open>2^64\<close> as the
  source computes it. The other values of \<^verbatim>\<open>size_t\<close> are natural numbers: the sums and
  products \<^verbatim>\<open>size_ + 1\<close>, \<^verbatim>\<open>Capacity() * 2\<close> and \<^verbatim>\<open>size_ * 2\<close> do not wrap while the
  capacity is below \<open>2^63\<close>; where a difference of the source would wrap
  (\<^verbatim>\<open>size_ - 1\<close> at size 0, \<^verbatim>\<open>size_ - dist\<close> beyond the end) the model says so: the call
  is undefined.
\<close>

type_synonym addr = nat
type_synonym ptr = "addr \<times> nat"
type_synonym 'a block = "'a option list"

record 'a heap =
  blocks :: "('a block \<times> nat) option list"
  avail :: nat

definition nullptr :: addr where
  "nullptr = 0"

text \<open>The slots of the region at an address, and the bytes it takes.\<close>

definition block_at :: "'a heap \<Rightarrow> addr \<Rightarrow> 'a block option" where
  "block_at h p =
     (if p = nullptr \<or> length (blocks h) < p then None else map_option fst (blocks h ! (p - 1)))"

definition bytes_at :: "'a heap \<Rightarrow> addr \<Rightarrow> nat" where
  "bytes_at h p =
     (if p = nullptr \<or> length (blocks h) < p then 0
      else (case blocks h ! (p - 1) of None \<Rightarrow> 0 | Some e \<Rightarrow> snd e))"

text \<open>New slots for the region at an address (its bytes stay), or its release.\<close>

definition set_block :: "'a heap \<Rightarrow> addr \<Rightarrow> 'a block option \<Rightarrow> 'a heap" where
  "set_block h p b = h\<lparr>blocks := (blocks h)[p - 1 := map_option (\<lambda>s. (s, bytes_at h p)) b]\<rparr>"

text \<open>\<^verbatim>\<open>operator new(bytes)\<close>, the region seen as slots for objects of \<open>sz\<close> bytes each,
  and \<^verbatim>\<open>operator delete(p)\<close>.\<close>

definition operator_new :: "nat \<Rightarrow> nat \<Rightarrow> 'a heap \<Rightarrow> (addr \<times> 'a heap, 'a heap) outcome" where
  "operator_new sz bytes h =
     (if avail h < bytes then Raised Bad_alloc h
      else Normal (Suc (length (blocks h)),
                   \<lparr>blocks = blocks h @ [Some (replicate (bytes div sz) None, bytes)],
                    avail = avail h - bytes\<rparr>))"

definition operator_delete :: "addr \<Rightarrow> 'a heap \<Rightarrow> 'a heap option" where
  "operator_delete p h =
     (if p = nullptr then Some h
      else (case block_at h p of
              None \<Rightarrow> None
            | Some b \<Rightarrow> Some ((set_block h p None)\<lparr>avail := avail h + bytes_at h p\<rparr>)))"

definition read_elem :: "'a heap \<Rightarrow> ptr \<Rightarrow> 'a option" where
  "read_elem h p =
     (case block_at h (fst p) of
        None \<Rightarrow> None
      | Some b \<Rightarrow> if snd p < length b then b ! snd p else None)"

definition write_slot :: "'a heap \<Rightarrow> ptr \<Rightarrow> 'a option \<Rightarrow> 'a heap option" where
  "write_slot h p s =
     (case block_at h (fst p) of
        None \<Rightarrow> None
      | Some b \<Rightarrow>
          if snd p < length b then Some (set_block h (fst p) (Some (b[snd p := s]))) else None)"

text \<open>Placement \<^verbatim>\<open>new (p) T(...)\<close> of an object of value \<open>x\<close>, \<^verbatim>\<open>p->~T()\<close>, and the
  effect of an assignment to \<^verbatim>\<open>*p\<close>.\<close>

definition construct_at :: "'a heap \<Rightarrow> ptr \<Rightarrow> 'a \<Rightarrow> 'a heap option" where
  "construct_at h p x = write_slot h p (Some x)"

definition destroy_at :: "'a heap \<Rightarrow> ptr \<Rightarrow> 'a heap option" where
  "destroy_at h p = (case read_elem h p of None \<Rightarrow> None | Some x \<Rightarrow> write_slot h p None)"

definition assign_at :: "'a heap \<Rightarrow> ptr \<Rightarrow> 'a \<Rightarrow> 'a heap option" where
  "assign_at h p x = (case read_elem h p of None \<Rightarrow> None | Some y \<Rightarrow> write_slot h p (Some x))"

definition ptr_add :: "ptr \<Rightarrow> nat \<Rightarrow> ptr" where
  "ptr_add p k = (fst p, snd p + k)"

section \<open>The library algorithms the container calls\<close>

text \<open>\<^verbatim>\<open>std::destroy_n(first, n)\<close>.\<close>

primrec destroy_n :: "ptr \<Rightarrow> nat \<Rightarrow> 'a heap \<Rightarrow> 'a heap option" where
  "destroy_n p 0 h = Some h"
| "destroy_n p (Suc n) h =
     (case destroy_at h p of None \<Rightarrow> None | Some h' \<Rightarrow> destroy_n (ptr_add p 1) n h')"

text \<open>
  The \<^verbatim>\<open>std::uninitialized_*\<close> algorithms construct into raw memory; when a constructor
  throws they destroy what they have constructed so far and rethrow. \<open>k\<close> counts the
  objects constructed.
\<close>

primrec uninitialized_value_construct_loop ::
  "'a elem_type \<Rightarrow> ptr \<Rightarrow> nat \<Rightarrow> nat \<Rightarrow> 'a heap \<Rightarrow> ('a heap, 'a heap) outcome" where
  "uninitialized_value_construct_loop T dst k 0 h = Normal h"
| "uninitialized_value_construct_loop T dst k (Suc n) h =
     (case value_init T of
        None \<Rightarrow> raise_after Elem_exn (destroy_n dst k h)
      | Some x \<Rightarrow>
          (case construct_at h (ptr_add dst k) x of
             None \<Rightarrow> Undefined
           | Some h' \<Rightarrow> uninitialized_value_construct_loop T dst (Suc k) n h'))"

definition uninitialized_value_construct_n ::
  "'a elem_type \<Rightarrow> ptr \<Rightarrow> nat \<Rightarrow> 'a heap \<Rightarrow> ('a heap, 'a heap) outcome" where
  "uninitialized_value_construct_n T dst n h = uninitialized_value_construct_loop T dst 0 n h"

primrec uninitialized_copy_loop ::
  "'a elem_type \<Rightarrow> ptr \<Rightarrow> ptr \<Rightarrow> nat \<Rightarrow> nat \<Rightarrow> 'a heap \<Rightarrow> ('a heap, 'a heap) outcome" where
  "uninitialized_copy_loop T src dst k 0 h = Normal h"
| "uninitialized_copy_loop T src dst k (Suc n) h =
     (case read_elem h (ptr_add src k) of
        None \<Rightarrow> Undefined
      | Some x \<Rightarrow>
          if copy_throws T x then raise_after Elem_exn (destroy_n dst k h)
          else (case construct_at h (ptr_add dst k) x of
                  None \<Rightarrow> Undefined
                | Some h' \<Rightarrow> uninitialized_copy_loop T src dst (Suc k) n h'))"

definition uninitialized_copy_n ::
  "'a elem_type \<Rightarrow> ptr \<Rightarrow> nat \<Rightarrow> ptr \<Rightarrow> 'a heap \<Rightarrow> ('a heap, 'a heap) outcome" where
  "uninitialized_copy_n T src n dst h = uninitialized_copy_loop T src dst 0 n h"

text \<open>\<^verbatim>\<open>std::uninitialized_copy(first, last, d_first)\<close>, both iterators into one region.\<close>

definition uninitialized_copy ::
  "'a elem_type \<Rightarrow> ptr \<Rightarrow> ptr \<Rightarrow> ptr \<Rightarrow> 'a heap \<Rightarrow> ('a heap, 'a heap) outcome" where
  "uninitialized_copy T p_first p_last dst h =
     (if fst p_first = fst p_last \<and> snd p_first \<le> snd p_last
      then uninitialized_copy_n T p_first (snd p_last - snd p_first) dst h
      else Undefined)"

text \<open>Move construction of \<^verbatim>\<open>*dst\<close> from \<^verbatim>\<open>std::move(*src)\<close>: the source stays a live
  object, in its moved-from state.\<close>

definition move_construct ::
  "'a elem_type \<Rightarrow> ptr \<Rightarrow> ptr \<Rightarrow> 'a heap \<Rightarrow> ('a heap, 'a heap) outcome" where
  "move_construct T src dst h =
     (case read_elem h src of
        None \<Rightarrow> Undefined
      | Some x \<Rightarrow>
          if move_fails T x then Raised Elem_exn h
          else (case construct_at h dst x of
                  None \<Rightarrow> Undefined
                | Some h' \<Rightarrow>
                    (case write_slot h' src (Some (moved_from T x)) of
                       None \<Rightarrow> Undefined
                     | Some h'' \<Rightarrow> Normal h'')))"

primrec uninitialized_move_loop ::
  "'a elem_type \<Rightarrow> ptr \<Rightarrow> ptr \<Rightarrow> nat \<Rightarrow> nat \<Rightarrow> 'a heap \<Rightarrow> ('a heap, 'a heap) outcome" where
  "uninitialized_move_loop T src dst k 0 h = Normal h"
| "uninitialized_move_loop T src dst k (Suc n) h =
     (case move_construct T (ptr_add src k) (ptr_add dst k) h of
        Undefined \<Rightarrow> Undefined
      | Raised e h' \<Rightarrow> raise_after e (destroy_n dst k h')
      | Normal h' \<Rightarrow> uninitialized_move_loop T src dst (Suc k) n h')"

definition uninitialized_move_n ::
  "'a elem_type \<Rightarrow> ptr \<Rightarrow> nat \<Rightarrow> ptr \<Rightarrow> 'a heap \<Rightarrow> ('a heap, 'a heap) outcome" where
  "uninitialized_move_n T src n dst h = uninitialized_move_loop T src dst 0 n h"

text \<open>Copy and move assignment between two live objects.\<close>

definition copy_assign_elem ::
  "'a elem_type \<Rightarrow> ptr \<Rightarrow> ptr \<Rightarrow> 'a heap \<Rightarrow> ('a heap, 'a heap) outcome" where
  "copy_assign_elem T src dst h =
     (case read_elem h src of
        None \<Rightarrow> Undefined
      | Some x \<Rightarrow>
          if copy_assign_throws T x then Raised Elem_exn h
          else (case assign_at h dst x of None \<Rightarrow> Undefined | Some h' \<Rightarrow> Normal h'))"

definition move_assign_elem ::
  "'a elem_type \<Rightarrow> ptr \<Rightarrow> ptr \<Rightarrow> 'a heap \<Rightarrow> ('a heap, 'a heap) outcome" where
  "move_assign_elem T src dst h =
     (case read_elem h src of
        None \<Rightarrow> Undefined
      | Some x \<Rightarrow>
          if move_assign_throws T x then Raised Elem_exn h
          else (case assign_at h dst x of
                  None \<Rightarrow> Undefined
                | Some h' \<Rightarrow>
                    (case write_slot h' src (Some (moved_from T x)) of
                       None \<Rightarrow> Undefined
                     | Some h'' \<Rightarrow> Normal h'')))"

text \<open>\<^verbatim>\<open>std::copy(first, first + n, d_first)\<close> and \<^verbatim>\<open>std::move(first, first + n, d_first)\<close>:
  front to back, one assignment per element, nothing undone when one throws.\<close>

primrec std_copy_loop ::
  "'a elem_type \<Rightarrow> ptr \<Rightarrow> ptr \<Rightarrow> nat \<Rightarrow> 'a heap \<Rightarrow> ('a heap, 'a heap) outcome" where
  "std_copy_loop T src dst 0 h = Normal h"
| "std_copy_loop T src dst (Suc n) h =
     (case copy_assign_elem T src dst h of
        Undefined \<Rightarrow> Undefined
      | Raised e h' \<Rightarrow> Raised e h'
      | Normal h' \<Rightarrow> std_copy_loop T (ptr_add src 1) (ptr_add dst 1) n h')"

primrec std_move_loop ::
  "'a elem_type \<Rightarrow> ptr \<Rightarrow> ptr \<Rightarrow> nat \<Rightarrow> 'a heap \<Rightarrow> ('a heap, 'a heap) outcome" where
  "std_move_loop T src dst 0 h = Normal h"
| "std_move_loop T src dst (Suc n) h =
     (case move_assign_elem T src dst h of
        Undefined \<Rightarrow> Undefined
      | Raised e h' \<Rightarrow> Raised e h'
      | Normal h' \<Rightarrow> std_move_loop T (ptr_add src 1) (ptr_add dst 1) n h')"

definition std_copy ::
  "'a elem_type \<Rightarrow> ptr \<Rightarrow> ptr \<Rightarrow> ptr \<Rightarrow> 'a heap \<Rightarrow> ('a heap, 'a heap) outcome" where
  "std_copy T p_first p_last dst h =
     (if fst p_first = fst p_last \<and> snd p_first \<le> snd p_last
      then std_copy_loop T p_first dst (snd p_last - snd p_first) h
      else Undefined)"

definition std_move ::
  "'a elem_type \<Rightarrow> ptr \<Rightarrow> ptr \<Rightarrow> ptr \<Rightarrow> 'a heap \<Rightarrow> ('a heap, 'a heap) outcome" where
  "std_move T p_first p_last dst h =
     (if fst p_first = fst p_last \<and> snd p_first \<le> snd p_last
      then std_move_loop T p_first dst (snd p_last - snd p_first) h
      else Undefined)"

text \<open>\<^verbatim>\<open>std::move_backward(first, last, d_last)\<close>: back to front,
  \<^verbatim>\<open>*(--d_last) = std::move(*(--last))\<close>.\<close>

primrec std_move_backward_loop ::
  "'a elem_type \<Rightarrow> ptr \<Rightarrow> ptr \<Rightarrow> nat \<Rightarrow> 'a heap \<Rightarrow> ('a heap, 'a heap) outcome" where
  "std_move_backward_loop T p_last d_last 0 h = Normal h"
| "std_move_backward_loop T p_last d_last (Suc n) h =
     (if snd p_last = 0 \<or> snd d_last = 0 then Undefined
      else (case move_assign_elem T (fst p_last, snd p_last - 1) (fst d_last, snd d_last - 1) h of
              Undefined \<Rightarrow> Undefined
            | Raised e h' \<Rightarrow> Raised e h'
            | Normal h' \<Rightarrow>
                std_move_backward_loop T (fst p_last, snd p_last - 1) (fst d_last, snd d_last - 1) n h'))"

definition std_move_backward ::
  "'a elem_type \<Rightarrow> ptr \<Rightarrow> ptr \<Rightarrow> ptr \<Rightarrow> 'a heap \<Rightarrow> ('a heap, 'a heap) outcome" where
  "std_move_backward T p_first p_last d_last h =
     (if fst p_first = fst p_last \<and> snd p_first \<le> snd p_last
      then std_move_backward_loop T p_last d_last (snd p_last - snd p_first) h
      else Undefined)"

section \<open>RawMemory\<close>

record raw_memory =
  m_buffer :: addr
  m_capacity :: nat

text \<open>The fields are \<^verbatim>\<open>buffer_\<close> and \<^verbatim>\<open>capacity_\<close>; \<^verbatim>\<open>RawMemory() = default\<close> leaves
  them at their initialisers.\<close>

definition RawMemory_default :: raw_memory where
  "RawMemory_default = \<lparr>m_buffer = nullptr, m_capacity = 0\<rparr>"

text \<open>\<^verbatim>\<open>Allocate(size_t n)\<close>: the argument of \<^verbatim>\<open>operator new\<close> is the 64-bit product
  \<^verbatim>\<open>n * sizeof(T)\<close>.\<close>

definition Allocate :: "'a elem_type \<Rightarrow> nat \<Rightarrow> 'a heap \<Rightarrow> (addr \<times> 'a heap, 'a heap) outcome" where
  "Allocate T n h =
     (if n \<noteq> 0 then operator_new (sizeof_elem T) ((n * sizeof_elem T) mod 2 ^ 64) h
      else Normal (nullptr, h))"

definition Deallocate :: "addr \<Rightarrow> 'a heap \<Rightarrow> 'a heap option" where
  "Deallocate buf h = operator_delete buf h"

text \<open>\<^verbatim>\<open>explicit RawMemory(size_t capacity)\<close> and \<^verbatim>\<open>~RawMemory()\<close>.\<close>

definition RawMemory_sized ::
  "'a elem_type \<Rightarrow> nat \<Rightarrow> 'a heap \<Rightarrow> (raw_memory \<times> 'a heap, 'a heap) outcome" where
  "RawMemory_sized T capacity h =
     (case Allocate T capacity h of
        Undefined \<Rightarrow> Undefined
      | Raised e h' \<Rightarrow> Raised e h'
      | Normal (buf, h') \<Rightarrow> Normal (\<lparr>m_buffer = buf, m_capacity = capacity\<rparr>, h'))"

definition RawMemory_dtor :: "raw_memory \<Rightarrow> 'a heap \<Rightarrow> 'a heap option" where
  "RawMemory_dtor m h = Deallocate (m_buffer m) h"

text \<open>\<^verbatim>\<open>RawMemory(RawMemory&& other)\<close>: the new object and what is left of \<open>other\<close>.\<close>

definition RawMemory_move_ctor :: "raw_memory \<Rightarrow> raw_memory \<times> raw_memory" where
  "RawMemory_move_ctor other =
     (\<lparr>m_buffer = m_buffer other, m_capacity = m_capacity other\<rparr>,
      \<lparr>m_buffer = nullptr, m_capacity = 0\<rparr>)"

text \<open>\<^verbatim>\<open>RawMemory& operator=(RawMemory&& rhs)\<close>. The objects are passed by value, so the
  test \<^verbatim>\<open>this != &rhs\<close> is the argument \<open>differ\<close>. The result is the pair of
  \<^verbatim>\<open>*this\<close> and \<^verbatim>\<open>rhs\<close> after the call; the heap is not an argument, since the body calls
  nothing that reads or changes it.\<close>

definition RawMemory_move_assign :: "bool \<Rightarrow> raw_memory \<Rightarrow> raw_memory \<Rightarrow> raw_memory \<times> raw_memory" where
  "RawMemory_move_assign differ this rhs =
     (if differ
      then (this\<lparr>m_buffer := m_buffer rhs, m_capacity := m_capacity rhs\<rparr>,
            rhs\<lparr>m_buffer := nullptr, m_capacity := 0\<rparr>)
      else (this, rhs))"

text \<open>\<^verbatim>\<open>operator+\<close> and \<^verbatim>\<open>operator[]\<close> with their assertions.\<close>

definition RawMemory_plus :: "raw_memory \<Rightarrow> nat \<Rightarrow> ptr option" where
  "RawMemory_plus m offset = (if offset \<le> m_capacity m then Some (m_buffer m, offset) else None)"

definition RawMemory_index :: "raw_memory \<Rightarrow> nat \<Rightarrow> ptr option" where
  "RawMemory_index m index = (if index < m_capacity m then Some (m_buffer m, index) else None)"

definition RawMemory_Swap :: "raw_memory \<Rightarrow> raw_memory \<Rightarrow> raw_memory \<times> raw_memory" where
  "RawMemory_Swap this other = (other, this)"

definition GetAddress :: "raw_memory \<Rightarrow> ptr" where
  "GetAddress m = (m_buffer m, 0)"

definition Capacity :: "raw_memory \<Rightarrow> nat" where
  "Capacity m = m_capacity m"

section \<open>Vector\<close>

record vector =
  m_size :: nat
  m_data :: raw_memory

text \<open>The fields are \<^verbatim>\<open>size_\<close> and \<^verbatim>\<open>data_\<close>. A member function takes the heap and \<^verbatim>\<open>*this\<close> and
  returns both; an iterator is a \<^verbatim>\<open>T*\<close>.\<close>

definition Vector_begin :: "vector \<Rightarrow> ptr" where
  "Vector_begin v = GetAddress (m_data v)"

definition Vector_end :: "vector \<Rightarrow> ptr option" where
  "Vector_end v = RawMemory_plus (m_data v) (m_size v)"

definition Size :: "vector \<Rightarrow> nat" where
  "Size v = m_size v"

definition Vector_Capacity :: "vector \<Rightarrow> nat" where
  "Vector_Capacity v = Capacity (m_data v)"

definition Vector_default :: vector where
  "Vector_default = \<lparr>m_size = 0, m_data = RawMemory_default\<rparr>"

text \<open>\<^verbatim>\<open>explicit Vector(size_t size)\<close>. When an element's construction throws, the
  member \<^verbatim>\<open>data_\<close> is destroyed as the exception leaves the constructor.\<close>

definition Vector_sized :: "'a elem_type \<Rightarrow> nat \<Rightarrow> 'a heap \<Rightarrow> (vector \<times> 'a heap, 'a heap) outcome" where
  "Vector_sized T sz h =
     (case RawMemory_sized T sz h of
        Undefined \<Rightarrow> Undefined
      | Raised e h1 \<Rightarrow> Raised e h1
      | Normal (d, h1) \<Rightarrow>
          (case uninitialized_value_construct_n T (GetAddress d) sz h1 of
             Undefined \<Rightarrow> Undefined
           | Raised e h2 \<Rightarrow> raise_after e (RawMemory_dtor d h2)
           | Normal h2 \<Rightarrow> Normal (\<lparr>m_size = sz, m_data = d\<rparr>, h2)))"

text \<open>\<^verbatim>\<open>Vector(const Vector& other)\<close>. \<open>other\<close> is const, so in the first branch
  \<^verbatim>\<open>std::uninitialized_move_n\<close> reads through a \<^verbatim>\<open>const T*\<close>: \<^verbatim>\<open>std::move\<close> of a const
  lvalue is a \<^verbatim>\<open>const T&&\<close>, which selects \<^verbatim>\<open>T(const T&)\<close>, and each element is
  copied there as well.\<close>

definition Vector_copy_ctor :: "'a elem_type \<Rightarrow> vector \<Rightarrow> 'a heap \<Rightarrow> (vector \<times> 'a heap, 'a heap) outcome" where
  "Vector_copy_ctor T other h =
     (case RawMemory_sized T (Size other) h of
        Undefined \<Rightarrow> Undefined
      | Raised e h1 \<Rightarrow> Raised e h1
      | Normal (d, h1) \<Rightarrow>
          (case (if nothrow_move_constructible T \<or> \<not> copy_constructible T
                 then uninitialized_copy_n T (GetAddress (m_data other)) (m_size other) (GetAddress d) h1
                 else uninitialized_copy_n T (GetAddress (m_data other)) (m_size other) (GetAddress d) h1) of
             Undefined \<Rightarrow> Undefined
           | Raised e h2 \<Rightarrow> raise_after e (RawMemory_dtor d h2)
           | Normal h2 \<Rightarrow> Normal (\<lparr>m_size = m_size other, m_data = d\<rparr>, h2)))"

text \<open>\<^verbatim>\<open>Vector(Vector&& other) noexcept\<close>: the new object and what is left of \<open>other\<close>.\<close>

definition Vector_move_ctor :: "vector \<Rightarrow> vector \<times> vector" where
  "Vector_move_ctor other =
     (let (d, od) = RawMemory_move_assign True RawMemory_default (m_data other)
      in (\<lparr>m_size = m_size other, m_data = d\<rparr>, \<lparr>m_size = 0, m_data = od\<rparr>))"

definition Vector_Swap :: "vector \<Rightarrow> vector \<Rightarrow> vector \<times> vector" where
  "Vector_Swap this other =
     (let (d, od) = RawMemory_Swap (m_data this) (m_data other)
      in (\<lparr>m_size = m_size other, m_data = d\<rparr>, \<lparr>m_size = m_size this, m_data = od\<rparr>))"

text \<open>\<^verbatim>\<open>~Vector()\<close>, followed by the destructor of the member \<^verbatim>\<open>data_\<close>.\<close>

definition Vector_dtor :: "vector \<Rightarrow> 'a heap \<Rightarrow> 'a heap option" where
  "Vector_dtor v h =
     (case destroy_n (GetAddress (m_data v)) (m_size v) h of
        None \<Rightarrow> None
      | Some h' \<Rightarrow> RawMemory_dtor (m_data v) h')"

text \<open>The transfer from one region to another, as every \<^verbatim>\<open>if constexpr\<close> of the
  class after the copy constructor writes it: \<^verbatim>\<open>std::uninitialized_move_n\<close> when
  \<^verbatim>\<open>T\<close> is nothrow move constructible or not copy constructible,
  \<^verbatim>\<open>std::uninitialized_copy_n\<close> otherwise.\<close>

definition transfer_n ::
  "'a elem_type \<Rightarrow> ptr \<Rightarrow> nat \<Rightarrow> ptr \<Rightarrow> 'a heap \<Rightarrow> ('a heap, 'a heap) outcome" where
  "transfer_n T src n dst h =
     (if nothrow_move_constructible T \<or> \<not> copy_constructible T
      then uninitialized_move_n T src n dst h
      else uninitialized_copy_n T src n dst h)"

text \<open>\<^verbatim>\<open>void Reserve(size_t new_capacity)\<close>. The local \<^verbatim>\<open>new_data\<close> is destroyed on
  every way out: with the fresh region when the transfer throws, with the old one after
  the swap.\<close>

definition Reserve ::
  "'a elem_type \<Rightarrow> nat \<Rightarrow> 'a heap \<times> vector \<Rightarrow> ('a heap \<times> vector, 'a heap \<times> vector) outcome" where
  "Reserve T new_capacity s =
     (let h = fst s; v = snd s in
      if new_capacity \<le> Capacity (m_data v) then Normal (h, v)
      else
        (case RawMemory_sized T new_capacity h of
           Undefined \<Rightarrow> Undefined
         | Raised e h1 \<Rightarrow> Raised e (h1, v)
         | Normal (new_data, h1) \<Rightarrow>
             (case transfer_n T (GetAddress (m_data v)) (m_size v) (GetAddress new_data) h1 of
                Undefined \<Rightarrow> Undefined
              | Raised e h2 \<Rightarrow>
                  (case RawMemory_dtor new_data h2 of
                     None \<Rightarrow> Undefined
                   | Some h3 \<Rightarrow> Raised e (h3, v))
              | Normal h2 \<Rightarrow>
                  (case destroy_n (GetAddress (m_data v)) (m_size v) h2 of
                     None \<Rightarrow> Undefined
                   | Some h3 \<Rightarrow>
                       (let (d, old) = RawMemory_Swap (m_data v) new_data in
                        case RawMemory_dtor old h3 of
                          None \<Rightarrow> Undefined
                        | Some h4 \<Rightarrow> Normal (h4, v\<lparr>m_data := d\<rparr>))))))"

text \<open>\<^verbatim>\<open>Vector& operator=(const Vector& rhs)\<close>; \<open>differ\<close> is the test
  \<^verbatim>\<open>this != &rhs\<close>, and a caller that passes \<open>False\<close> passes the same object twice.\<close>

definition Vector_copy_assign ::
  "'a elem_type \<Rightarrow> bool \<Rightarrow> 'a heap \<times> vector \<Rightarrow> vector \<Rightarrow> ('a heap \<times> vector, 'a heap \<times> vector) outcome" where
  "Vector_copy_assign T differ s rhs =
     (let h = fst s; v = snd s in
      if differ then
        (if m_size rhs > Capacity (m_data v) then
           (case Vector_copy_ctor T rhs h of
              Undefined \<Rightarrow> Undefined
            | Raised e h1 \<Rightarrow> Raised e (h1, v)
            | Normal (rhs_copy, h1) \<Rightarrow>
                (let (v1, rhs_copy1) = Vector_Swap v rhs_copy in
                 case Vector_dtor rhs_copy1 h1 of
                   None \<Rightarrow> Undefined
                 | Some h2 \<Rightarrow> Normal (h2, v1\<lparr>m_size := m_size rhs\<rparr>)))
         else
           (let min_of_copy = min (m_size v) (m_size rhs) in
            case std_copy T (GetAddress (m_data rhs)) (ptr_add (GetAddress (m_data rhs)) min_of_copy)
                   (GetAddress (m_data v)) h of
              Undefined \<Rightarrow> Undefined
            | Raised e h1 \<Rightarrow> Raised e (h1, v)
            | Normal h1 \<Rightarrow>
                if m_size v > m_size rhs then
                  (case destroy_n (ptr_add (GetAddress (m_data v)) (m_size rhs)) (m_size v - m_size rhs) h1 of
                     None \<Rightarrow> Undefined
                   | Some h2 \<Rightarrow> Normal (h2, v\<lparr>m_size := m_size rhs\<rparr>))
                else
                  (case (RawMemory_plus (m_data rhs) (m_size v),
                         RawMemory_plus (m_data rhs) (m_size rhs),
                         RawMemory_plus (m_data v) (m_size v)) of
                     (Some p_first, Some p_last, Some d_first) \<Rightarrow>
                       (case uninitialized_copy T p_first p_last d_first h1 of
                          Undefined \<Rightarrow> Undefined
                        | Raised e h2 \<Rightarrow> Raised e (h2, v)
                        | Normal h2 \<Rightarrow> Normal (h2, v\<lparr>m_size := m_size rhs\<rparr>))
                   | _ \<Rightarrow> Undefined)))
      else Normal (h, v\<lparr>m_size := m_size rhs\<rparr>))"

text \<open>\<^verbatim>\<open>Vector& operator=(Vector&& rhs) noexcept\<close>: \<^verbatim>\<open>*this\<close> and \<open>rhs\<close> after the call.
  As in \<^verbatim>\<open>RawMemory\<close>'s operator, no statement of the body reads or changes the heap.\<close>

definition Vector_move_assign :: "bool \<Rightarrow> vector \<Rightarrow> vector \<Rightarrow> vector \<times> vector" where
  "Vector_move_assign differ this rhs =
     (if differ
      then (let (d, rd) = RawMemory_move_assign True (m_data this) (m_data rhs)
            in (this\<lparr>m_data := d, m_size := m_size rhs\<rparr>, rhs\<lparr>m_data := rd, m_size := 0\<rparr>))
      else (this, rhs))"

text \<open>\<^verbatim>\<open>void Resize(size_t new_size)\<close>.\<close>

definition Resize ::
  "'a elem_type \<Rightarrow> nat \<Rightarrow> 'a heap \<times> vector \<Rightarrow> ('a heap \<times> vector, 'a heap \<times> vector) outcome" where
  "Resize T new_size s =
     (let h = fst s; v = snd s in
      if new_size \<noteq> m_size v then
        (if new_size < m_size v then
           (case destroy_n (ptr_add (GetAddress (m_data v)) new_size) (m_size v - new_size) h of
              None \<Rightarrow> Undefined
            | Some h1 \<Rightarrow> Normal (h1, v\<lparr>m_size := new_size\<rparr>))
         else if new_size > m_size v then
           (case (if new_size > Capacity (m_data v) then Reserve T new_size (h, v) else Normal (h, v)) of
              Undefined \<Rightarrow> Undefined
            | Raised e s1 \<Rightarrow> Raised e s1
            | Normal (h1, v1) \<Rightarrow>
                (case uninitialized_value_construct_n T (ptr_add (GetAddress (m_data v1)) (m_size v1))
                        (new_size - m_size v1) h1 of
                   Undefined \<Rightarrow> Undefined
                 | Raised e h2 \<Rightarrow> Raised e (h2, v1)
                 | Normal h2 \<Rightarrow> Normal (h2, v1\<lparr>m_size := new_size\<rparr>)))
         else Normal (h, v))
      else Normal (h, v))"

text \<open>\<^verbatim>\<open>void PopBack() noexcept\<close>. On an empty vector \<^verbatim>\<open>size_ - 1\<close> wraps and the
  destroyed address lies outside the region.\<close>

definition PopBack :: "'a heap \<times> vector \<Rightarrow> ('a heap \<times> vector) option" where
  "PopBack s =
     (let h = fst s; v = snd s in
      if m_size v = 0 then None
      else (case destroy_n (ptr_add (GetAddress (m_data v)) (m_size v - 1)) 1 h of
              None \<Rightarrow> None
            | Some h1 \<Rightarrow> Some (h1, v\<lparr>m_size := m_size v - 1\<rparr>)))"

text \<open>\<^verbatim>\<open>T& EmplaceBack(Args&&... args)\<close>. The argument \<open>arg\<close> is what
  \<^verbatim>\<open>T(std::forward<Args>(args)...)\<close> does: \<open>None\<close> when it throws, \<open>Some x\<close> when it
  constructs an object of value \<open>x\<close>. The result carries the address of the referenced
  element. \<open>EmplaceBack_finish\<close> is the common tail \<^verbatim>\<open>++size_; return data_[size_ - 1]\<close>.\<close>

definition EmplaceBack_finish ::
  "'a heap \<times> vector \<Rightarrow> (('a heap \<times> vector) \<times> ptr, 'a heap \<times> vector) outcome" where
  "EmplaceBack_finish s =
     (let v' = (snd s)\<lparr>m_size := m_size (snd s) + 1\<rparr> in
      case RawMemory_index (m_data v') (m_size v' - 1) of
        None \<Rightarrow> Undefined
      | Some p \<Rightarrow> Normal ((fst s, v'), p))"

definition EmplaceBack ::
  "'a elem_type \<Rightarrow> 'a option \<Rightarrow> 'a heap \<times> vector \<Rightarrow> (('a heap \<times> vector) \<times> ptr, 'a heap \<times> vector) outcome" where
  "EmplaceBack T arg s =
     (let h = fst s; v = snd s in
      if m_size v < Capacity (m_data v) then
        (case RawMemory_plus (m_data v) (m_size v) of
           None \<Rightarrow> Undefined
         | Some p \<Rightarrow>
             (case arg of
                None \<Rightarrow> Raised Elem_exn (h, v)
              | Some x \<Rightarrow>
                  (case construct_at h p x of
                     None \<Rightarrow> Undefined
                   | Some h1 \<Rightarrow> EmplaceBack_finish (h1, v))))
      else
        (let new_capacity = (if m_size v = 0 then 1 else Capacity (m_data v) * 2) in
         case RawMemory_sized T new_capacity h of
           Undefined \<Rightarrow> Undefined
         | Raised e h1 \<Rightarrow> Raised e (h1, v)
         | Normal (new_data, h1) \<Rightarrow>
             (case RawMemory_plus new_data (m_size v) of
                None \<Rightarrow> Undefined
              | Some p \<Rightarrow>
                  (case arg of
                     None \<Rightarrow>
                       (case RawMemory_dtor new_data h1 of
                          None \<Rightarrow> Undefined
                        | Some h2 \<Rightarrow> Raised Elem_exn (h2, v))
                   | Some x \<Rightarrow>
                       (case construct_at h1 p x of
                          None \<Rightarrow> Undefined
                        | Some h2 \<Rightarrow>
                            (case transfer_n T (GetAddress (m_data v)) (m_size v) (GetAddress new_data) h2 of
                               Undefined \<Rightarrow> Undefined
                             | Raised e h3 \<Rightarrow>
                                 (case RawMemory_dtor new_data h3 of
                                    None \<Rightarrow> Undefined
                                  | Some h4 \<Rightarrow> Raised e (h4, v))
                             | Normal h3 \<Rightarrow>
                                 (let (d, old) = RawMemory_Swap (m_data v) new_data in
                                  case destroy_n (GetAddress old) (m_size v) h3 of
                                    None \<Rightarrow> Undefined
                                  | Some h4 \<Rightarrow>
                                      (case RawMemory_dtor old h4 of
                                         None \<Rightarrow> Undefined
                                       | Some h5 \<Rightarrow> EmplaceBack_finish (h5, v\<lparr>m_data := d\<rparr>)))))))))"

text \<open>\<^verbatim>\<open>void PushBack(const T& value)\<close> constructs the element by \<^verbatim>\<open>T(const T&)\<close>,
  \<^verbatim>\<open>void PushBack(T&& value)\<close> by \<^verbatim>\<open>T(T&&)\<close> from an object that is not an element of this
  vector.\<close>

definition drop_result :: "('s \<times> 'r, 's) outcome \<Rightarrow> ('s, 's) outcome" where
  "drop_result out = (case out of Undefined \<Rightarrow> Undefined | Raised e s \<Rightarrow> Raised e s | Normal (s, r) \<Rightarrow> Normal s)"

definition PushBack ::
  "'a elem_type \<Rightarrow> 'a \<Rightarrow> 'a heap \<times> vector \<Rightarrow> ('a heap \<times> vector, 'a heap \<times> vector) outcome" where
  "PushBack T val s = drop_result (EmplaceBack T (if copy_throws T val then None else Some val) s)"

definition PushBack_rvalue ::
  "'a elem_type \<Rightarrow> 'a \<Rightarrow> 'a heap \<times> vector \<Rightarrow> ('a heap \<times> vector, 'a heap \<times> vector) outcome" where
  "PushBack_rvalue T val s = drop_result (EmplaceBack T (if move_fails T val then None else Some val) s)"

text \<open>\<^verbatim>\<open>std::distance(first, last)\<close> for two pointers into one region.\<close>

definition distance :: "ptr \<Rightarrow> ptr \<Rightarrow> nat option" where
  "distance p q = (if fst p = fst q \<and> snd p \<le> snd q then Some (snd q - snd p) else None)"

text \<open>\<^verbatim>\<open>void EmplaceWithoutRealloc(size_t dist, Args&&... args)\<close>. The temporary
  \<^verbatim>\<open>copy_obj\<close> lives outside the heap.\<close>

definition EmplaceWithoutRealloc ::
  "'a elem_type \<Rightarrow> nat \<Rightarrow> 'a option \<Rightarrow> 'a heap \<times> vector \<Rightarrow> ('a heap \<times> vector, 'a heap \<times> vector) outcome" where
  "EmplaceWithoutRealloc T dist arg s =
     (let h = fst s; v = snd s in
      case arg of
        None \<Rightarrow> Raised Elem_exn (h, v)
      | Some copy_obj \<Rightarrow>
          if m_size v = 0 then Undefined
          else
            (case (Vector_end v, RawMemory_index (m_data v) (m_size v - 1)) of
               (Some e, Some back) \<Rightarrow>
                 (case move_construct T back e h of
                    Undefined \<Rightarrow> Undefined
                  | Raised ex h1 \<Rightarrow> Raised ex (h1, v)
                  | Normal h1 \<Rightarrow>
                      (case std_move_backward T (ptr_add (Vector_begin v) dist) (fst e, snd e - 1) e h1 of
                         Undefined \<Rightarrow> Undefined
                       | Raised ex h2 \<Rightarrow> Raised ex (h2, v)
                       | Normal h2 \<Rightarrow>
                           (case RawMemory_index (m_data v) dist of
                              None \<Rightarrow> Undefined
                            | Some p \<Rightarrow>
                                if move_assign_throws T copy_obj then Raised Elem_exn (h2, v)
                                else (case assign_at h2 p copy_obj of
                                        None \<Rightarrow> Undefined
                                      | Some h3 \<Rightarrow> Normal (h3, v)))))
             | _ \<Rightarrow> Undefined))"

text \<open>\<^verbatim>\<open>void EmplaceWithRealloc(size_t dist, Args&&... args)\<close>. The new region is sized
  from \<^verbatim>\<open>size_\<close>.\<close>

definition EmplaceWithRealloc ::
  "'a elem_type \<Rightarrow> nat \<Rightarrow> 'a option \<Rightarrow> 'a heap \<times> vector \<Rightarrow> ('a heap \<times> vector, 'a heap \<times> vector) outcome" where
  "EmplaceWithRealloc T dist arg s =
     (let h = fst s; v = snd s;
          sz = (if m_size v = 0 then 1 else m_size v * 2) in
      case RawMemory_sized T sz h of
        Undefined \<Rightarrow> Undefined
      | Raised e h1 \<Rightarrow> Raised e (h1, v)
      | Normal (new_data, h1) \<Rightarrow>
          (case RawMemory_plus new_data dist of
             None \<Rightarrow> Undefined
           | Some p \<Rightarrow>
               (case arg of
                  None \<Rightarrow>
                    (case RawMemory_dtor new_data h1 of
                       None \<Rightarrow> Undefined
                     | Some h2 \<Rightarrow> Raised Elem_exn (h2, v))
                | Some x \<Rightarrow>
                    (case construct_at h1 p x of
                       None \<Rightarrow> Undefined
                     | Some h2 \<Rightarrow>
                         (case transfer_n T (GetAddress (m_data v)) dist (GetAddress new_data) h2 of
                            Undefined \<Rightarrow> Undefined
                          | Raised e h3 \<Rightarrow>
                              (case RawMemory_dtor new_data h3 of
                                 None \<Rightarrow> Undefined
                               | Some h4 \<Rightarrow> Raised e (h4, v))
                          | Normal h3 \<Rightarrow>
                              if m_size v < dist then Undefined
                              else
                                (case transfer_n T (ptr_add (GetAddress (m_data v)) dist) (m_size v - dist)
                                        (ptr_add (GetAddress new_data) (dist + 1)) h3 of
                                   Undefined \<Rightarrow> Undefined
                                 | Raised e h4 \<Rightarrow>
                                     (case RawMemory_dtor new_data h4 of
                                        None \<Rightarrow> Undefined
                                      | Some h5 \<Rightarrow> Raised e (h5, v))
                                 | Normal h4 \<Rightarrow>
                                     (let (d, old) = RawMemory_Swap (m_data v) new_data in
                                      case destroy_n (GetAddress old) (m_size v) h4 of
                                        None \<Rightarrow> Undefined
                                      | Some h5 \<Rightarrow>
                                          (case RawMemory_dtor old h5 of
                                             None \<Rightarrow> Undefined
                                           | Some h6 \<Rightarrow> Normal (h6, v\<lparr>m_data := d\<rparr>)))))))))"

text \<open>\<^verbatim>\<open>iterator Emplace(const_iterator pos, Args&&... args)\<close>.\<close>

definition Emplace ::
  "'a elem_type \<Rightarrow> ptr \<Rightarrow> 'a option \<Rightarrow> 'a heap \<times> vector \<Rightarrow> (('a heap \<times> vector) \<times> ptr, 'a heap \<times> vector) outcome" where
  "Emplace T pos arg s =
     (let h = fst s; v = snd s in
      case Vector_end v of
        None \<Rightarrow> Undefined
      | Some e \<Rightarrow>
          if pos = e then EmplaceBack T arg (h, v)
          else
            (case distance (Vector_begin v) pos of
               None \<Rightarrow> Undefined
             | Some dist \<Rightarrow>
                 (case (if m_size v < Capacity (m_data v)
                        then EmplaceWithoutRealloc T dist arg (h, v)
                        else EmplaceWithRealloc T dist arg (h, v)) of
                    Undefined \<Rightarrow> Undefined
                  | Raised ex s1 \<Rightarrow> Raised ex s1
                  | Normal (h1, v1) \<Rightarrow>
                      (let v2 = v1\<lparr>m_size := m_size v1 + 1\<rparr>
                       in Normal ((h1, v2), ptr_add (Vector_begin v2) dist)))))"

text \<open>\<^verbatim>\<open>iterator Insert(const_iterator pos, const T& value)\<close> and
  \<^verbatim>\<open>iterator Insert(const_iterator pos, T&& value)\<close>.\<close>

definition Insert ::
  "'a elem_type \<Rightarrow> ptr \<Rightarrow> 'a \<Rightarrow> 'a heap \<times> vector \<Rightarrow> (('a heap \<times> vector) \<times> ptr, 'a heap \<times> vector) outcome" where
  "Insert T pos val s = Emplace T pos (if copy_throws T val then None else Some val) s"

definition Insert_rvalue ::
  "'a elem_type \<Rightarrow> ptr \<Rightarrow> 'a \<Rightarrow> 'a heap \<times> vector \<Rightarrow> (('a heap \<times> vector) \<times> ptr, 'a heap \<times> vector) outcome" where
  "Insert_rvalue T pos val s = Emplace T pos (if move_fails T val then None else Some val) s"

text \<open>\<^verbatim>\<open>iterator Erase(const_iterator pos)\<close>.\<close>

definition Erase ::
  "'a elem_type \<Rightarrow> ptr \<Rightarrow> 'a heap \<times> vector \<Rightarrow> (('a heap \<times> vector) \<times> ptr, 'a heap \<times> vector) outcome" where
  "Erase T pos s =
     (let h = fst s; v = snd s in
      case (distance (Vector_begin v) pos, Vector_end v) of
        (Some dist, Some e) \<Rightarrow>
          (case std_move T (ptr_add (Vector_begin v) (dist + 1)) e (ptr_add (Vector_begin v) dist) h of
             Undefined \<Rightarrow> Undefined
           | Raised ex h1 \<Rightarrow> Raised ex (h1, v)
           | Normal h1 \<Rightarrow>
               if m_size v = 0 then Undefined
               else
                 (case RawMemory_index (m_data v) (m_size v - 1) of
                    None \<Rightarrow> Undefined
                  | Some back \<Rightarrow>
                      (case destroy_at h1 back of
                         None \<Rightarrow> Undefined
                       | Some h2 \<Rightarrow>
                           (let v' = v\<lparr>m_size := m_size v - 1\<rparr>
                            in Normal ((h2, v'), ptr_add (Vector_begin v') dist)))))
      | _ \<Rightarrow> Undefined)"

section \<open>Programs over several vectors\<close>

text \<open>
  The \<^verbatim>\<open>Vector\<close> objects of a program are numbered; \<open>objects w ! i\<close> is object \<open>i\<close>, and two
  references are the same object when their numbers are equal. A \<open>call\<close> is one use of
  the public interface; a constructor adds an object.
\<close>

record 'a world =
  heap :: "'a heap"
  objects :: "vector list"

datatype 'a call =
    Construct_default
  | Construct_sized nat
  | Construct_copy nat
  | Construct_move nat
  | Assign_copy nat nat
  | Assign_move nat nat
  | Call_Resize nat nat
  | Call_PushBack nat 'a
  | Call_PushBack_rvalue nat 'a
  | Call_PopBack nat
  | Call_EmplaceBack nat "'a option"
  | Call_Emplace nat nat "'a option"
  | Call_Insert nat nat 'a
  | Call_Insert_rvalue nat nat 'a
  | Call_Erase nat nat
  | Call_Swap nat nat
  | Call_Reserve nat nat

definition construct ::
  "'a world \<Rightarrow> (vector \<times> 'a heap, 'a heap) outcome \<Rightarrow> ('a world, 'a world) outcome" where
  "construct w out =
     (case out of
        Undefined \<Rightarrow> Undefined
      | Raised e h \<Rightarrow> Raised e (w\<lparr>heap := h\<rparr>)
      | Normal (v, h) \<Rightarrow> Normal \<lparr>heap = h, objects = objects w @ [v]\<rparr>)"

definition on_object ::
  "'a world \<Rightarrow> nat \<Rightarrow> ('a heap \<times> vector \<Rightarrow> ('a heap \<times> vector, 'a heap \<times> vector) outcome)
     \<Rightarrow> ('a world, 'a world) outcome" where
  "on_object w i f =
     (if i < length (objects w) then
        (case f (heap w, objects w ! i) of
           Undefined \<Rightarrow> Undefined
         | Raised e (h, v) \<Rightarrow> Raised e \<lparr>heap = h, objects = (objects w)[i := v]\<rparr>
         | Normal (h, v) \<Rightarrow> Normal \<lparr>heap = h, objects = (objects w)[i := v]\<rparr>)
      else Undefined)"

definition on_objects ::
  "'a world \<Rightarrow> nat \<Rightarrow> nat \<Rightarrow> (bool \<Rightarrow> vector \<Rightarrow> vector \<Rightarrow> vector \<times> vector) \<Rightarrow> ('a world, 'a world) outcome" where
  "on_objects w i j f =
     (if i < length (objects w) \<and> j < length (objects w) then
        (let (a, b) = f (i \<noteq> j) (objects w ! i) (objects w ! j)
         in Normal (w\<lparr>objects := (objects w)[j := b, i := a]\<rparr>))
      else Undefined)"

definition at_offset :: "vector \<Rightarrow> nat \<Rightarrow> ptr" where
  "at_offset v i = ptr_add (Vector_begin v) i"

fun exec :: "'a elem_type \<Rightarrow> 'a call \<Rightarrow> 'a world \<Rightarrow> ('a world, 'a world) outcome" where
  "exec T Construct_default w = Normal (w\<lparr>objects := objects w @ [Vector_default]\<rparr>)"
| "exec T (Construct_sized n) w = construct w (Vector_sized T n (heap w))"
| "exec T (Construct_copy j) w =
     (if j < length (objects w) then construct w (Vector_copy_ctor T (objects w ! j) (heap w))
      else Undefined)"
| "exec T (Construct_move j) w =
     (if j < length (objects w)
      then (let (v, other) = Vector_move_ctor (objects w ! j)
            in Normal (w\<lparr>objects := (objects w)[j := other] @ [v]\<rparr>))
      else Undefined)"
| "exec T (Assign_copy i j) w =
     (if j < length (objects w)
      then on_object w i (\<lambda>s. Vector_copy_assign T (i \<noteq> j) s (objects w ! j))
      else Undefined)"
| "exec T (Assign_move i j) w = on_objects w i j Vector_move_assign"
| "exec T (Call_Resize i n) w = on_object w i (Resize T n)"
| "exec T (Call_PushBack i x) w = on_object w i (PushBack T x)"
| "exec T (Call_PushBack_rvalue i x) w = on_object w i (PushBack_rvalue T x)"
| "exec T (Call_PopBack i) w =
     on_object w i (\<lambda>s. case PopBack s of None \<Rightarrow> Undefined | Some s' \<Rightarrow> Normal s')"
| "exec T (Call_EmplaceBack i arg) w = on_object w i (\<lambda>s. drop_result (EmplaceBack T arg s))"
| "exec T (Call_Emplace i k arg) w =
     on_object w i (\<lambda>s. drop_result (Emplace T (at_offset (snd s) k) arg s))"
| "exec T (Call_Insert i k x) w =
     on_object w i (\<lambda>s. drop_result (Insert T (at_offset (snd s) k) x s))"
| "exec T (Call_Insert_rvalue i k x) w =
     on_object w i (\<lambda>s. drop_result (Insert_rvalue T (at_offset (snd s) k) x s))"
| "exec T (Call_Erase i k) w =
     on_object w i (\<lambda>s. drop_result (Erase T (at_offset (snd s) k) s))"
| "exec T (Call_Swap i j) w = on_objects w i j (\<lambda>d. Vector_Swap)"
| "exec T (Call_Reserve i n) w = on_object w i (Reserve T n)"

text \<open>The states a program reaches: from no object at all, by calls that return or
  throw.\<close>

inductive reachable :: "'a elem_type \<Rightarrow> 'a world \<Rightarrow> bool" for T :: "'a elem_type" where
  start: "reachable T \<lparr>heap = \<lparr>blocks = [], avail = m\<rparr>, objects = []\<rparr>"
| returns: "reachable T w \<Longrightarrow> exec T c w = Normal w' \<Longrightarrow> reachable T w'"
| throws: "reachable T w \<Longrightarrow> exec T c w = Raised e w' \<Longrightarrow> reachable T w'"

section \<open>What a vector holds\<close>

definition region :: "'a heap \<Rightarrow> vector \<Rightarrow> 'a block" where
  "region h v = (case block_at h (m_buffer (m_data v)) of None \<Rightarrow> [] | Some b \<Rightarrow> b)"

definition elems :: "'a heap \<Rightarrow> vector \<Rightarrow> 'a list" where
  "elems h v = map the (take (m_size v) (region h v))"

text \<open>The representation invariant of \<section>3 of the specification, as far as the
  operations rely on it: the size is at most the capacity, the null address goes with
  capacity zero, any other address is a live region of exactly \<open>capacity\<close> slots, and
  the first \<open>size\<close> slots hold objects.\<close>

definition vector_ok :: "'a heap \<Rightarrow> vector \<Rightarrow> bool" where
  "vector_ok h v =
     (m_size v \<le> m_capacity (m_data v) \<and>
      (if m_buffer (m_data v) = nullptr then m_capacity (m_data v) = 0
       else (case block_at h (m_buffer (m_data v)) of
               None \<Rightarrow> False
             | Some b \<Rightarrow> length b = m_capacity (m_data v) \<and>
                         list_all (\<lambda>s. s \<noteq> None) (take (m_size v) b))))"

text \<open>Whether the transfer of an element of value \<open>x\<close> throws: by the constructor that
  \<open>transfer_n\<close> selects.\<close>

definition transfer_throws :: "'a elem_type \<Rightarrow> 'a \<Rightarrow> bool" where
  "transfer_throws T x =
     (if nothrow_move_constructible T \<or> \<not> copy_constructible T then move_fails T x else copy_throws T x)"

text \<open>A request for \<open>n\<close> objects does not wrap: \<^verbatim>\<open>sizeof(T)\<close> is positive and
  \<open>n * sizeof(T)\<close> is a value of \<^verbatim>\<open>size_t\<close>.\<close>

definition no_wrap :: "'a elem_type \<Rightarrow> nat \<Rightarrow> bool" where
  "no_wrap T n = (0 < sizeof_elem T \<and> n * sizeof_elem T < 2 ^ 64)"

text \<open>An append: \<^verbatim>\<open>v.PushBack(x)\<close> of an lvalue \<open>x\<close>, \<^verbatim>\<open>v.PushBack(std::move(x))\<close>, or
  \<^verbatim>\<open>v.EmplaceBack(args...)\<close> with arguments from which \<^verbatim>\<open>T\<close>'s constructor makes
  \<open>x\<close>; the value it appends; whether the construction of the new element throws; and
  a sequence of appends, stopped by the first that throws or is undefined.\<close>

datatype 'a append_op = Push_copy 'a | Push_move 'a | Emplace_back 'a

fun appended :: "'a append_op \<Rightarrow> 'a" where
  "appended (Push_copy x) = x"
| "appended (Push_move x) = x"
| "appended (Emplace_back x) = x"

fun append_throws :: "'a elem_type \<Rightarrow> 'a append_op \<Rightarrow> bool" where
  "append_throws T (Push_copy x) = copy_throws T x"
| "append_throws T (Push_move x) = move_fails T x"
| "append_throws T (Emplace_back x) = False"

fun append_call ::
  "'a elem_type \<Rightarrow> 'a append_op \<Rightarrow> 'a heap \<times> vector \<Rightarrow> ('a heap \<times> vector, 'a heap \<times> vector) outcome" where
  "append_call T (Push_copy x) s = PushBack T x s"
| "append_call T (Push_move x) s = PushBack_rvalue T x s"
| "append_call T (Emplace_back x) s = drop_result (EmplaceBack T (Some x) s)"

fun appends ::
  "'a elem_type \<Rightarrow> 'a append_op list \<Rightarrow> 'a heap \<times> vector \<Rightarrow> ('a heap \<times> vector, 'a heap \<times> vector) outcome" where
  "appends T [] s = Normal s"
| "appends T (a # as) s =
     (case append_call T a s of
        Undefined \<Rightarrow> Undefined
      | Raised e s' \<Rightarrow> Raised e s'
      | Normal s' \<Rightarrow> appends T as s')"

text \<open>The capacity \<open>c\<close> that \<open>n\<close> appends to an empty vector lead to: none for none,
  otherwise the power of two with \<open>n \<le> c < 2 n\<close>.\<close>

definition doubled :: "nat \<Rightarrow> nat \<Rightarrow> bool" where
  "doubled n c = (if n = 0 then c = 0 else (\<exists>k. c = 2 ^ k \<and> n \<le> c \<and> c < 2 * n))"

text \<open>The invariant of \<section>8: the size is at most the capacity.\<close>

definition fits :: "vector \<Rightarrow> bool" where
  "fits v = (m_size v \<le> m_capacity (m_data v))"

text \<open>A sequence of calls, stopped by the first that throws or is undefined.\<close>

fun run :: "'a elem_type \<Rightarrow> 'a call list \<Rightarrow> 'a world \<Rightarrow> ('a world, 'a world) outcome" where
  "run T [] w = Normal w"
| "run T (c # cs) w =
     (case exec T c w of
        Undefined \<Rightarrow> Undefined
      | Raised e w' \<Rightarrow> Raised e w'
      | Normal w' \<Rightarrow> run T cs w')"

text \<open>\<^verbatim>\<open>Vector<int>\<close>: an \<^verbatim>\<open>int\<close> has four bytes, no operation of \<^verbatim>\<open>int\<close> throws, and a
  move leaves its source as it was.\<close>

definition int_type :: "int elem_type" where
  "int_type = \<lparr>sizeof_elem = 4, nothrow_move_constructible = True, copy_constructible = True, value_init = Some 0,
     copy_throws = (\<lambda>x. False), move_throws = (\<lambda>x. False), copy_assign_throws = (\<lambda>x. False),
     move_assign_throws = (\<lambda>x. False), moved_from = (\<lambda>x. x)\<rparr>"

text \<open>A program before its first constructor call, with \<open>m\<close> bytes of memory.\<close>

definition no_objects :: "nat \<Rightarrow> 'a world" where
  "no_objects m = \<lparr>heap = \<lparr>blocks = [], avail = m\<rparr>, objects = []\<rparr>"

text \<open>The state after
  \<^verbatim>\<open>Vector<int> a; a.Reserve(2); a.PushBack(1); a.PushBack(2); Vector<int> b; b.PushBack(3);\<close>\<close>

definition two_vectors :: "int world" where
  "two_vectors =
     \<lparr>heap = \<lparr>blocks = [Some ([Some 1, Some 2], 8), Some ([Some 3], 4)], avail = 7\<rparr>,
      objects = [\<lparr>m_size = 2, m_data = \<lparr>m_buffer = 1, m_capacity = 2\<rparr>\<rparr>,
                 \<lparr>m_size = 1, m_data = \<lparr>m_buffer = 2, m_capacity = 1\<rparr>\<rparr>]\<rparr>"

text \<open>A vector \<open>[1, 2, 4]\<close> of capacity 4.\<close>

definition one_vector :: "int heap \<times> vector" where
  "one_vector =
     (\<lparr>blocks = [Some ([Some 1, Some 2, Some 4, None], 16)], avail = 20\<rparr>,
      \<lparr>m_size = 3, m_data = \<lparr>m_buffer = 1, m_capacity = 4\<rparr>\<rparr>)"

text \<open>A type that cannot be copied and whose move constructor throws on the value 13
  (and leaves 0 behind where it succeeds), and a type that can be copied, whose copy
  constructor throws on 13 and whose move constructor is not \<^verbatim>\<open>noexcept\<close>; both of
  four bytes.\<close>

definition fragile :: "int elem_type" where
  "fragile = \<lparr>sizeof_elem = 4, nothrow_move_constructible = False, copy_constructible = False, value_init = Some 0,
     copy_throws = (\<lambda>x. False), move_throws = (\<lambda>x. x = 13), copy_assign_throws = (\<lambda>x. False),
     move_assign_throws = (\<lambda>x. False), moved_from = (\<lambda>x. 0)\<rparr>"

definition throwing_copy :: "int elem_type" where
  "throwing_copy = \<lparr>sizeof_elem = 4, nothrow_move_constructible = False, copy_constructible = True, value_init = Some 0,
     copy_throws = (\<lambda>x. x = 13), move_throws = (\<lambda>x. False), copy_assign_throws = (\<lambda>x. False),
     move_assign_throws = (\<lambda>x. False), moved_from = (\<lambda>x. x)\<rparr>"

text \<open>A full vector \<open>[7, 13]\<close>: size and capacity 2.\<close>

definition full_vector :: "int heap \<times> vector" where
  "full_vector =
     (\<lparr>blocks = [Some ([Some 7, Some 13], 8)], avail = 20\<rparr>,
      \<lparr>m_size = 2, m_data = \<lparr>m_buffer = 1, m_capacity = 2\<rparr>\<rparr>)"

section \<open>Facts about raw memory\<close>

lemma nth_splice:
  assumes "i + n \<le> length xs" "length ys = n"
  shows "(take i xs @ ys @ drop (i + n) xs) ! j =
         (if j < i then xs ! j else if j < i + n then ys ! (j - i) else xs ! j)"
proof -
  have l: "length (take i xs) = i" using assms(1) by simp
  consider "j < i" | "i \<le> j" "j < i + n" | "i + n \<le> j" by linarith
  then show ?thesis
  proof cases
    case 1
    then show ?thesis using l by (simp add: nth_append)
  next
    case 2
    then have "j - i < n" by linarith
    then show ?thesis using 2 l assms(2) by (simp add: nth_append)
  next
    case 3
    then have a: "\<not> j < i" "\<not> j - i < n" "\<not> j < i + n" by linarith+
    have "(take i xs @ ys @ drop (i + n) xs) ! j = drop (i + n) xs ! (j - i - n)"
      using a l assms(2) by (simp add: nth_append)
    also have "\<dots> = xs ! j"
      using 3 assms(1) by (cases "j < length xs") (simp_all add: nth_drop)
    finally show ?thesis using a by simp
  qed
qed

lemma length_splice:
  "i + n \<le> length xs \<Longrightarrow> length ys = n \<Longrightarrow> length (take i xs @ ys @ drop (i + n) xs) = length xs"
  by simp

lemma raise_after_not_Normal [simp]: "raise_after e x \<noteq> Normal y"
  by (cases x) simp_all

lemma block_at_SomeD: "block_at h p = Some b \<Longrightarrow> p \<noteq> nullptr \<and> p \<le> length (blocks h)"
  by (auto simp: block_at_def split: if_splits)

lemma block_at_nullptr [simp]: "block_at h nullptr = None"
  by (simp add: block_at_def)

lemma bytes_at_nullptr [simp]: "bytes_at h nullptr = 0"
  by (simp add: bytes_at_def)

lemma block_at_set_block_same:
  "p \<noteq> nullptr \<Longrightarrow> p \<le> length (blocks h) \<Longrightarrow> block_at (set_block h p b) p = b"
  by (cases b) (simp_all add: block_at_def set_block_def nullptr_def)

lemma block_at_set_block_other:
  "q \<noteq> p \<Longrightarrow> p \<noteq> nullptr \<Longrightarrow> block_at (set_block h p b) q = block_at h q"
  by (cases "q = nullptr") (auto simp: block_at_def set_block_def nullptr_def)

lemma block_at_set_block:
  "block_at h p = Some b0 \<Longrightarrow> block_at (set_block h p b) q = (if q = p then b else block_at h q)"
  by (auto dest: block_at_SomeD simp: block_at_set_block_same block_at_set_block_other)

lemma avail_set_block [simp]: "avail (set_block h p b) = avail h"
  by (simp add: set_block_def)

lemma length_blocks_set_block [simp]: "length (blocks (set_block h p b)) = length (blocks h)"
  by (simp add: set_block_def)

lemma bytes_at_set_block:
  "p \<noteq> nullptr \<Longrightarrow> bytes_at (set_block h p (Some b)) = bytes_at h"
proof
  fix q
  assume p: "p \<noteq> nullptr"
  show "bytes_at (set_block h p (Some b)) q = bytes_at h q"
  proof (cases "q = nullptr \<or> length (blocks h) < q")
    case True
    then show ?thesis by (auto simp: bytes_at_def set_block_def)
  next
    case False
    then have q: "q - 1 < length (blocks h)" by (auto simp: nullptr_def)
    show ?thesis
    proof (cases "q = p")
      case True
      then show ?thesis using False q by (simp add: bytes_at_def set_block_def)
    next
      case n: False
      then have "q - 1 \<noteq> p - 1" using p False by (auto simp: nullptr_def)
      then show ?thesis using False by (simp add: bytes_at_def set_block_def)
    qed
  qed
qed

lemma set_block_twice:
  "p \<noteq> nullptr \<Longrightarrow> set_block (set_block h p (Some b)) p c = set_block h p c"
  using bytes_at_set_block[of p h b] by (simp add: set_block_def)

lemma set_block_same: "block_at h p = Some b \<Longrightarrow> set_block h p (Some b) = h"
proof -
  assume a: "block_at h p = Some b"
  then obtain e where e: "blocks h ! (p - 1) = Some e" "fst e = b" "p \<noteq> nullptr" "p \<le> length (blocks h)"
    by (auto simp: block_at_def split: if_splits)
  then have "bytes_at h p = snd e" by (simp add: bytes_at_def)
  then have "(blocks h)[p - 1 := Some (b, bytes_at h p)] = blocks h"
    using e by (auto simp: nullptr_def list_update_same_conv)
  then show ?thesis by (simp add: set_block_def)
qed

lemma write_slot_bytes: "write_slot h p s = Some h' \<Longrightarrow> bytes_at h' = bytes_at h"
  by (auto simp: write_slot_def bytes_at_set_block split: option.splits if_splits
      dest: block_at_SomeD)

lemma construct_at_bytes: "construct_at h p x = Some h' \<Longrightarrow> bytes_at h' = bytes_at h"
  by (simp add: construct_at_def write_slot_bytes)

lemma destroy_at_bytes: "destroy_at h p = Some h' \<Longrightarrow> bytes_at h' = bytes_at h"
  by (auto simp: destroy_at_def write_slot_bytes split: option.splits)

lemma destroy_n_bytes: "destroy_n p n h = Some h' \<Longrightarrow> bytes_at h' = bytes_at h"
proof (induction n arbitrary: p h)
  case 0
  then show ?case by simp
next
  case (Suc n)
  then obtain h1 where h1: "destroy_at h p = Some h1" "destroy_n (ptr_add p 1) n h1 = Some h'"
    by (auto split: option.splits)
  from Suc.IH[OF h1(2)] destroy_at_bytes[OF h1(1)] show ?case by simp
qed

lemma raise_after_destroy_n_bytes:
  "raise_after e (destroy_n p n h) = Raised e' h' \<Longrightarrow> bytes_at h' = bytes_at h"
  by (cases "destroy_n p n h") (auto dest: destroy_n_bytes)

lemma uninitialized_copy_loop_bytes:
  "uninitialized_copy_loop T src dst k n h = Normal h' \<or>
   uninitialized_copy_loop T src dst k n h = Raised e h' \<Longrightarrow> bytes_at h' = bytes_at h"
proof (induction n arbitrary: k h)
  case 0
  then show ?case by simp
next
  case (Suc n)
  from Suc.prems obtain x where x: "read_elem h (ptr_add src k) = Some x"
    by (auto split: option.splits)
  show ?case
  proof (cases "copy_throws T x")
    case True
    then show ?thesis using Suc.prems x by (auto dest: raise_after_destroy_n_bytes)
  next
    case False
    with Suc.prems x obtain h1 where h1: "construct_at h (ptr_add dst k) x = Some h1"
      "uninitialized_copy_loop T src dst (Suc k) n h1 = Normal h' \<or>
       uninitialized_copy_loop T src dst (Suc k) n h1 = Raised e h'"
      by (auto split: option.splits)
    from Suc.IH[OF h1(2)] construct_at_bytes[OF h1(1)] show ?thesis by simp
  qed
qed

lemma move_construct_bytes:
  "move_construct T src dst h = Normal h' \<or> move_construct T src dst h = Raised e h' \<Longrightarrow>
   bytes_at h' = bytes_at h"
  by (auto simp: move_construct_def split: option.splits if_splits
      dest!: construct_at_bytes write_slot_bytes)

lemma uninitialized_move_loop_bytes:
  "uninitialized_move_loop T src dst k n h = Normal h' \<or>
   uninitialized_move_loop T src dst k n h = Raised e h' \<Longrightarrow> bytes_at h' = bytes_at h"
proof (induction n arbitrary: k h)
  case 0
  then show ?case by simp
next
  case (Suc n)
  show ?case
  proof (cases "move_construct T (ptr_add src k) (ptr_add dst k) h")
    case (Normal h1)
    then have "bytes_at h1 = bytes_at h"
      using move_construct_bytes[of T "ptr_add src k" "ptr_add dst k" h h1] by simp
    moreover have "bytes_at h' = bytes_at h1"
      using Suc.prems Normal Suc.IH[of "Suc k" h1] by simp
    ultimately show ?thesis by simp
  next
    case (Raised e1 h1)
    then have "bytes_at h1 = bytes_at h"
      using move_construct_bytes[of T "ptr_add src k" "ptr_add dst k" h h1 e1] by simp
    moreover have "bytes_at h' = bytes_at h1"
      using Suc.prems Raised by (auto dest: raise_after_destroy_n_bytes)
    ultimately show ?thesis by simp
  next
    case Undefined
    then show ?thesis using Suc.prems by simp
  qed
qed

lemma read_elem_block:
  "block_at h p = Some b \<Longrightarrow> read_elem h (p, i) = (if i < length b then b ! i else None)"
  by (simp add: read_elem_def)

lemma write_slot_block:
  "block_at h p = Some b \<Longrightarrow> i < length b \<Longrightarrow>
   write_slot h (p, i) s = Some (set_block h p (Some (b[i := s])))"
  by (simp add: write_slot_def)

lemma destroy_n_block:
  "block_at h p = Some b \<Longrightarrow> i + n \<le> length b \<Longrightarrow>
   \<forall>j. i \<le> j \<and> j < i + n \<longrightarrow> b ! j \<noteq> None \<Longrightarrow>
   destroy_n (p, i) n h = Some (set_block h p (Some (take i b @ replicate n None @ drop (i + n) b)))"
proof (induction n arbitrary: i b h)
  case 0
  then show ?case by (simp add: set_block_same)
next
  case (Suc n)
  from Suc.prems have i: "i < length b" by simp
  from Suc.prems i have live: "b ! i \<noteq> None" by simp
  let ?b1 = "b[i := None]"
  let ?h1 = "set_block h p (Some ?b1)"
  have d: "destroy_at h (p, i) = Some ?h1"
    using Suc.prems(1) i live by (auto simp: destroy_at_def read_elem_block write_slot_block)
  have b1: "block_at ?h1 p = Some ?b1"
    using Suc.prems(1) by (simp add: block_at_set_block)
  have rest: "\<forall>j. Suc i \<le> j \<and> j < Suc i + n \<longrightarrow> ?b1 ! j \<noteq> None"
    using Suc.prems(3) by simp
  have len: "Suc i + n \<le> length ?b1" using Suc.prems(2) by simp
  have "destroy_n (p, Suc i) n ?h1 =
        Some (set_block ?h1 p (Some (take (Suc i) ?b1 @ replicate n None @ drop (Suc i + n) ?b1)))"
    by (rule Suc.IH[OF b1 len rest])
  moreover have "take (Suc i) ?b1 = take i b @ [None]"
    using i by (simp add: take_Suc_conv_app_nth)
  moreover have "p \<noteq> nullptr" using Suc.prems(1) by (auto dest: block_at_SomeD)
  ultimately show ?case
    using d by (simp add: ptr_add_def replicate_app_Cons_same set_block_twice)
qed

lemma destroy_n_obs:
  assumes "block_at h p = Some b" "i + n \<le> length b"
    "\<forall>j. i \<le> j \<and> j < i + n \<longrightarrow> b ! j \<noteq> None"
  shows "\<exists>h'. destroy_n (p, i) n h = Some h' \<and> avail h' = avail h \<and>
           block_at h' p = Some (take i b @ replicate n None @ drop (i + n) b) \<and>
           (\<forall>a. a \<noteq> p \<longrightarrow> block_at h' a = block_at h a)"
  using destroy_n_block[OF assms] assms(1)
  by (auto simp: block_at_set_block)

lemma uninitialized_copy_loop_block:
  "block_at h src = Some bs \<Longrightarrow> block_at h dst = Some bd \<Longrightarrow> src \<noteq> dst \<Longrightarrow>
   si + k + n \<le> length bs \<Longrightarrow> di + k + n \<le> length bd \<Longrightarrow>
   \<forall>j. si + k \<le> j \<and> j < si + k + n \<longrightarrow> (\<exists>x. bs ! j = Some x \<and> \<not> copy_throws T x) \<Longrightarrow>
   uninitialized_copy_loop T (src, si) (dst, di) k n h =
     Normal (set_block h dst (Some (take (di + k) bd @ take n (drop (si + k) bs) @ drop (di + k + n) bd)))"
proof (induction n arbitrary: k bd h)
  case 0
  then show ?case by (simp add: set_block_same)
next
  case (Suc n)
  from Suc.prems(6) obtain x where x: "bs ! (si + k) = Some x" "\<not> copy_throws T x"
    by (metis le_refl less_add_Suc1 add_Suc_right)
  have sk: "si + k < length bs" and dk: "di + k < length bd"
    using Suc.prems by simp_all
  let ?bd1 = "bd[di + k := Some x]"
  let ?h1 = "set_block h dst (Some ?bd1)"
  have rd: "read_elem h (src, si + k) = Some x"
    using Suc.prems(1) sk x by (simp add: read_elem_block)
  have cn: "construct_at h (dst, di + k) x = Some ?h1"
    using Suc.prems(2) dk by (simp add: construct_at_def write_slot_block)
  have s1: "block_at ?h1 src = Some bs"
    using Suc.prems(1,2,3) by (simp add: block_at_set_block)
  have d1: "block_at ?h1 dst = Some ?bd1"
    using Suc.prems(2) by (simp add: block_at_set_block)
  have r1: "\<forall>j. si + Suc k \<le> j \<and> j < si + Suc k + n \<longrightarrow> (\<exists>x. bs ! j = Some x \<and> \<not> copy_throws T x)"
    using Suc.prems(6) by simp
  have l1: "si + Suc k + n \<le> length bs" "di + Suc k + n \<le> length ?bd1"
    using Suc.prems(4,5) by simp_all
  have ih: "uninitialized_copy_loop T (src, si) (dst, di) (Suc k) n ?h1 =
     Normal (set_block ?h1 dst (Some (take (di + Suc k) ?bd1 @ take n (drop (si + Suc k) bs) @ drop (di + Suc k + n) ?bd1)))"
    by (rule Suc.IH[OF s1 d1 Suc.prems(3) l1 r1])
  have t1: "take (di + Suc k) ?bd1 = take (di + k) bd @ [Some x]"
    using dk by (simp add: take_Suc_conv_app_nth)
  have t2: "take (Suc n) (drop (si + k) bs) = Some x # take n (drop (si + Suc k) bs)"
    using sk x(1) by (simp add: Cons_nth_drop_Suc[symmetric])
  have "dst \<noteq> nullptr" using Suc.prems(2) by (auto dest: block_at_SomeD)
  then show ?case
    using rd cn x(2) ih t1 t2 by (simp add: ptr_add_def set_block_twice)
qed

lemma uninitialized_copy_n_obs:
  assumes "block_at h src = Some bs" "block_at h dst = Some bd" "src \<noteq> dst"
    "si + n \<le> length bs" "di + n \<le> length bd"
    "\<forall>j. si \<le> j \<and> j < si + n \<longrightarrow> (\<exists>x. bs ! j = Some x \<and> \<not> copy_throws T x)"
  shows "\<exists>h'. uninitialized_copy_n T (src, si) n (dst, di) h = Normal h' \<and> avail h' = avail h \<and>
           block_at h' dst = Some (take di bd @ take n (drop si bs) @ drop (di + n) bd) \<and>
           block_at h' src = Some bs \<and>
           (\<forall>a. a \<noteq> dst \<longrightarrow> block_at h' a = block_at h a)"
  using uninitialized_copy_loop_block[where k = 0, OF assms(1,2,3)] assms
  by (auto simp: uninitialized_copy_n_def block_at_set_block)

lemma move_construct_block:
  assumes "block_at h src = Some bs" "block_at h dst = Some bd" "src \<noteq> dst"
    "i < length bs" "j < length bd" "bs ! i = Some x" "\<not> move_fails T x"
  shows "\<exists>h'. move_construct T (src, i) (dst, j) h = Normal h' \<and> avail h' = avail h \<and>
           block_at h' dst = Some (bd[j := Some x]) \<and>
           block_at h' src = Some (bs[i := Some (moved_from T x)]) \<and>
           (\<forall>a. a \<noteq> dst \<and> a \<noteq> src \<longrightarrow> block_at h' a = block_at h a)"
proof -
  let ?h1 = "set_block h dst (Some (bd[j := Some x]))"
  have rd: "read_elem h (src, i) = Some x"
    using assms by (simp add: read_elem_block)
  have cn: "construct_at h (dst, j) x = Some ?h1"
    using assms by (simp add: construct_at_def write_slot_block)
  have s1: "block_at ?h1 src = Some bs"
    using assms by (simp add: block_at_set_block)
  have w: "write_slot ?h1 (src, i) (Some (moved_from T x)) =
           Some (set_block ?h1 src (Some (bs[i := Some (moved_from T x)])))"
    using s1 assms(4) by (rule write_slot_block)
  have d2: "block_at ?h1 dst = Some (bd[j := Some x])"
    using assms(2) by (simp add: block_at_set_block)
  show ?thesis
    using rd cn w assms(1,2,3,7) s1 d2
    by (auto simp: move_construct_def block_at_set_block)
qed

lemma uninitialized_move_loop_obs:
  "block_at h src = Some bs \<Longrightarrow> block_at h dst = Some bd \<Longrightarrow> src \<noteq> dst \<Longrightarrow>
   si + k + n \<le> length bs \<Longrightarrow> di + k + n \<le> length bd \<Longrightarrow>
   \<forall>j. si + k \<le> j \<and> j < si + k + n \<longrightarrow> (\<exists>x. bs ! j = Some x \<and> \<not> move_fails T x) \<Longrightarrow>
   \<exists>h'. uninitialized_move_loop T (src, si) (dst, di) k n h = Normal h' \<and> avail h' = avail h \<and>
     block_at h' dst = Some (take (di + k) bd @ take n (drop (si + k) bs) @ drop (di + k + n) bd) \<and>
     block_at h' src = Some (take (si + k) bs @ map (map_option (moved_from T)) (take n (drop (si + k) bs))
                               @ drop (si + k + n) bs) \<and>
     (\<forall>a. a \<noteq> dst \<and> a \<noteq> src \<longrightarrow> block_at h' a = block_at h a)"
proof (induction n arbitrary: k bs bd h)
  case 0
  then show ?case by simp
next
  case (Suc n)
  from Suc.prems(6) obtain x where x: "bs ! (si + k) = Some x" "\<not> move_fails T x"
    by (metis le_refl less_add_Suc1 add_Suc_right)
  have sk: "si + k < length bs" and dk: "di + k < length bd"
    using Suc.prems by simp_all
  let ?bd1 = "bd[di + k := Some x]"
  let ?bs1 = "bs[si + k := Some (moved_from T x)]"
  from move_construct_block[OF Suc.prems(1,2,3) sk dk x]
  obtain h1 where h1: "move_construct T (src, si + k) (dst, di + k) h = Normal h1"
    "avail h1 = avail h" "block_at h1 dst = Some ?bd1" "block_at h1 src = Some ?bs1"
    "\<forall>a. a \<noteq> dst \<and> a \<noteq> src \<longrightarrow> block_at h1 a = block_at h a"
    by blast
  have r1: "\<forall>j. si + Suc k \<le> j \<and> j < si + Suc k + n \<longrightarrow> (\<exists>x. ?bs1 ! j = Some x \<and> \<not> move_fails T x)"
    using Suc.prems(6) by simp
  have l1: "si + Suc k + n \<le> length ?bs1" "di + Suc k + n \<le> length ?bd1"
    using Suc.prems(4,5) by simp_all
  from Suc.IH[OF h1(4) h1(3) Suc.prems(3) l1 r1]
  obtain h' where h': "uninitialized_move_loop T (src, si) (dst, di) (Suc k) n h1 = Normal h'"
    "avail h' = avail h1"
    "block_at h' dst = Some (take (di + Suc k) ?bd1 @ take n (drop (si + Suc k) ?bs1) @ drop (di + Suc k + n) ?bd1)"
    "block_at h' src = Some (take (si + Suc k) ?bs1 @ map (map_option (moved_from T)) (take n (drop (si + Suc k) ?bs1))
                               @ drop (si + Suc k + n) ?bs1)"
    "\<forall>a. a \<noteq> dst \<and> a \<noteq> src \<longrightarrow> block_at h' a = block_at h1 a"
    by blast
  have t1: "take (di + Suc k) ?bd1 = take (di + k) bd @ [Some x]"
    using dk by (simp add: take_Suc_conv_app_nth)
  have t1': "take (si + Suc k) ?bs1 = take (si + k) bs @ [Some (moved_from T x)]"
    using sk by (simp add: take_Suc_conv_app_nth)
  have t2: "take (Suc n) (drop (si + k) bs) = Some x # take n (drop (si + Suc k) bs)"
    using sk x(1) by (simp add: Cons_nth_drop_Suc[symmetric])
  have "uninitialized_move_loop T (src, si) (dst, di) k (Suc n) h = Normal h'"
    using h1(1) h'(1) by (simp add: ptr_add_def)
  moreover have "avail h' = avail h" using h'(2) h1(2) by simp
  moreover have "block_at h' dst = Some (take (di + k) bd @ take (Suc n) (drop (si + k) bs) @ drop (di + k + Suc n) bd)"
    using h'(3) t1 t2 by simp
  moreover have "block_at h' src = Some (take (si + k) bs @ map (map_option (moved_from T)) (take (Suc n) (drop (si + k) bs))
                               @ drop (si + k + Suc n) bs)"
    using h'(4) t1' t2 by simp
  moreover have "\<forall>a. a \<noteq> dst \<and> a \<noteq> src \<longrightarrow> block_at h' a = block_at h a"
    using h'(5) h1(5) by simp
  ultimately show ?case by blast
qed

lemma transfer_n_obs:
  assumes "block_at h src = Some bs" "block_at h dst = Some bd" "src \<noteq> dst"
    "si + n \<le> length bs" "di + n \<le> length bd"
    "\<forall>j. si \<le> j \<and> j < si + n \<longrightarrow> (\<exists>x. bs ! j = Some x \<and> \<not> transfer_throws T x)"
  shows "\<exists>h' bs'. transfer_n T (src, si) n (dst, di) h = Normal h' \<and> avail h' = avail h \<and>
           block_at h' dst = Some (take di bd @ take n (drop si bs) @ drop (di + n) bd) \<and>
           block_at h' src = Some bs' \<and> length bs' = length bs \<and>
           take si bs' = take si bs \<and> drop (si + n) bs' = drop (si + n) bs \<and>
           (\<forall>j. j < length bs \<and> bs ! j \<noteq> None \<longrightarrow> bs' ! j \<noteq> None) \<and>
           (\<forall>a. a \<noteq> dst \<and> a \<noteq> src \<longrightarrow> block_at h' a = block_at h a)"
proof (cases "nothrow_move_constructible T \<or> \<not> copy_constructible T")
  case True
  then have tt: "\<And>x. transfer_throws T x = move_fails T x"
    by (simp add: transfer_throws_def)
  let ?bs' = "take si bs @ map (map_option (moved_from T)) (take n (drop si bs)) @ drop (si + n) bs"
  have a6: "\<forall>j. si + 0 \<le> j \<and> j < si + 0 + n \<longrightarrow> (\<exists>x. bs ! j = Some x \<and> \<not> move_fails T x)"
    using assms(6) by (simp add: tt)
  have a4: "si + 0 + n \<le> length bs" and a5: "di + 0 + n \<le> length bd"
    using assms(4,5) by simp_all
  from uninitialized_move_loop_obs[OF assms(1,2,3) a4 a5 a6]
  obtain h' where h0: "uninitialized_move_loop T (src, si) (dst, di) 0 n h = Normal h'" "avail h' = avail h"
     "block_at h' dst = Some (take (di + 0) bd @ take n (drop (si + 0) bs) @ drop (di + 0 + n) bd)"
     "block_at h' src = Some (take (si + 0) bs @ map (map_option (moved_from T)) (take n (drop (si + 0) bs))
                               @ drop (si + 0 + n) bs)"
     "\<forall>a. a \<noteq> dst \<and> a \<noteq> src \<longrightarrow> block_at h' a = block_at h a"
    by blast
  have h': "uninitialized_move_n T (src, si) n (dst, di) h = Normal h'" "avail h' = avail h"
     "block_at h' dst = Some (take di bd @ take n (drop si bs) @ drop (di + n) bd)"
     "block_at h' src = Some ?bs'"
     "\<forall>a. a \<noteq> dst \<and> a \<noteq> src \<longrightarrow> block_at h' a = block_at h a"
    using h0 by (simp_all add: uninitialized_move_n_def)
  have len: "length ?bs' = length bs" using assms(4) by simp
  have tk: "take si ?bs' = take si bs" using assms(4) by simp
  have dr: "drop (si + n) ?bs' = drop (si + n) bs" using assms(4) by simp
  have live: "\<forall>j. j < length bs \<and> bs ! j \<noteq> None \<longrightarrow> ?bs' ! j \<noteq> None"
  proof (intro allI impI)
    fix j assume j: "j < length bs \<and> bs ! j \<noteq> None"
    have ln: "length (map (map_option (moved_from T)) (take n (drop si bs))) = n"
      using assms(4) by simp
    have "?bs' ! j = (if j < si then bs ! j else if j < si + n
              then map (map_option (moved_from T)) (take n (drop si bs)) ! (j - si) else bs ! j)"
      by (rule nth_splice[OF assms(4) ln])
    moreover have "j < si + n \<Longrightarrow> \<not> j < si \<Longrightarrow>
        map (map_option (moved_from T)) (take n (drop si bs)) ! (j - si) = map_option (moved_from T) (bs ! j)"
      using assms(4) by simp
    ultimately show "?bs' ! j \<noteq> None" using j by auto
  qed
  have "transfer_n T (src, si) n (dst, di) h = Normal h'"
    using True h'(1) by (simp add: transfer_n_def)
  then show ?thesis
    using h'(2,3,4,5) len tk dr live by blast
next
  case False
  then have tt: "\<And>x. transfer_throws T x = copy_throws T x"
    by (simp add: transfer_throws_def)
  have a6: "\<forall>j. si \<le> j \<and> j < si + n \<longrightarrow> (\<exists>x. bs ! j = Some x \<and> \<not> copy_throws T x)"
    using assms(6) by (simp add: tt)
  from uninitialized_copy_n_obs[OF assms(1,2,3,4,5) a6]
  obtain h' where h': "uninitialized_copy_n T (src, si) n (dst, di) h = Normal h'" "avail h' = avail h"
     "block_at h' dst = Some (take di bd @ take n (drop si bs) @ drop (di + n) bd)"
     "block_at h' src = Some bs"
     "\<forall>a. a \<noteq> dst \<longrightarrow> block_at h' a = block_at h a"
    by blast
  have "transfer_n T (src, si) n (dst, di) h = Normal h'"
    using False h'(1) by (simp add: transfer_n_def)
  moreover have "\<forall>a. a \<noteq> dst \<and> a \<noteq> src \<longrightarrow> block_at h' a = block_at h a"
    using h'(5) by simp
  ultimately show ?thesis
    using h'(2,3,4) by blast
qed

section \<open>Allocation, release and the representation invariant\<close>

lemma block_at_fresh [simp]: "block_at h (Suc (length (blocks h))) = None"
  by (simp add: block_at_def)

lemma transfer_n_bytes:
  "transfer_n T src n dst h = Normal h' \<or> transfer_n T src n dst h = Raised e h' \<Longrightarrow>
   bytes_at h' = bytes_at h"
  unfolding transfer_n_def uninitialized_move_n_def uninitialized_copy_n_def
  using uninitialized_move_loop_bytes[of T src dst 0 n h h' e]
    uninitialized_copy_loop_bytes[of T src dst 0 n h h' e]
  by (auto split: if_splits)

text \<open>A request for \<open>n\<close> objects whose size in bytes does not wrap and that the
  allocator can satisfy yields a fresh region of \<open>n\<close> raw slots.\<close>

lemma RawMemory_sized_ok:
  assumes "n * sizeof_elem T \<le> avail h" "n \<noteq> 0" "0 < sizeof_elem T" "n * sizeof_elem T < 2 ^ 64"
  shows "\<exists>h'. RawMemory_sized T n h = Normal (\<lparr>m_buffer = Suc (length (blocks h)), m_capacity = n\<rparr>, h') \<and>
           avail h' = avail h - n * sizeof_elem T \<and>
           block_at h' (Suc (length (blocks h))) = Some (replicate n None) \<and>
           (\<forall>a. a \<noteq> Suc (length (blocks h)) \<longrightarrow> block_at h' a = block_at h a) \<and>
           bytes_at h' (Suc (length (blocks h))) = n * sizeof_elem T \<and>
           (\<forall>a. a \<noteq> Suc (length (blocks h)) \<longrightarrow> bytes_at h' a = bytes_at h a)"
  using assms
  by (auto simp: RawMemory_sized_def Allocate_def operator_new_def block_at_def bytes_at_def
      nullptr_def nth_append)

lemma RawMemory_dtor_ok:
  assumes "block_at h (m_buffer m) = Some b"
  shows "\<exists>h'. RawMemory_dtor m h = Some h' \<and> avail h' = avail h + bytes_at h (m_buffer m) \<and>
           block_at h' (m_buffer m) = None \<and>
           (\<forall>a. a \<noteq> m_buffer m \<longrightarrow> block_at h' a = block_at h a) \<and>
           (\<forall>a. a \<noteq> m_buffer m \<longrightarrow> bytes_at h' a = bytes_at h a)"
proof -
  let ?p = "m_buffer m"
  have nn: "?p \<noteq> nullptr" "?p \<le> length (blocks h)" using assms by (auto dest: block_at_SomeD)
  have "block_at ((set_block h ?p None)\<lparr>avail := avail h + bytes_at h ?p\<rparr>) a =
        block_at (set_block h ?p None) a" for a
    by (simp add: block_at_def)
  moreover have "bytes_at ((set_block h ?p None)\<lparr>avail := avail h + bytes_at h ?p\<rparr>) a =
        bytes_at h a" if "a \<noteq> ?p" for a
  proof (cases "a = nullptr \<or> length (blocks h) < a")
    case True
    then show ?thesis by (auto simp: bytes_at_def set_block_def)
  next
    case False
    then have "a - 1 \<noteq> ?p - 1" using that nn by (auto simp: nullptr_def)
    then show ?thesis using False by (simp add: bytes_at_def set_block_def)
  qed
  ultimately show ?thesis
    using assms nn
    by (simp add: RawMemory_dtor_def Deallocate_def operator_delete_def block_at_set_block)
qed

lemma RawMemory_dtor_null:
  "m_buffer m = nullptr \<Longrightarrow> RawMemory_dtor m h = Some h"
  by (simp add: RawMemory_dtor_def Deallocate_def operator_delete_def)

lemma vector_ok_size: "vector_ok h v \<Longrightarrow> m_size v \<le> m_capacity (m_data v)"
  by (simp add: vector_ok_def)

lemma vector_ok_null:
  "vector_ok h v \<Longrightarrow> m_buffer (m_data v) = nullptr \<Longrightarrow> m_capacity (m_data v) = 0 \<and> m_size v = 0"
  by (simp add: vector_ok_def)

lemma vector_ok_block:
  assumes "vector_ok h v" "m_buffer (m_data v) \<noteq> nullptr"
  obtains b where "block_at h (m_buffer (m_data v)) = Some b" "length b = m_capacity (m_data v)"
    "\<forall>j. j < m_size v \<longrightarrow> b ! j \<noteq> None"
proof -
  from assms obtain b where b: "block_at h (m_buffer (m_data v)) = Some b"
      "length b = m_capacity (m_data v)" "list_all (\<lambda>s. s \<noteq> None) (take (m_size v) b)"
    by (auto simp: vector_ok_def split: option.splits)
  from b(3) have "\<forall>j. j < m_size v \<longrightarrow> b ! j \<noteq> None"
    using assms(1) b(2) by (simp add: list_all_length vector_ok_def)
  with b(1,2) show ?thesis by (rule that)
qed

lemma vector_okI:
  assumes "block_at h (m_buffer (m_data v)) = Some b" "length b = m_capacity (m_data v)"
    "m_size v \<le> m_capacity (m_data v)" "\<forall>j. j < m_size v \<longrightarrow> b ! j \<noteq> None"
  shows "vector_ok h v"
  using assms by (auto simp: vector_ok_def list_all_length dest: block_at_SomeD)

lemma elems_block:
  "block_at h (m_buffer (m_data v)) = Some b \<Longrightarrow> elems h v = map the (take (m_size v) b)"
  by (simp add: elems_def region_def)

lemma elems_null:
  "vector_ok h v \<Longrightarrow> m_buffer (m_data v) = nullptr \<Longrightarrow> elems h v = []"
  by (simp add: elems_def vector_ok_def)

lemma length_elems:
  assumes "vector_ok h v"
  shows "length (elems h v) = m_size v"
proof (cases "m_buffer (m_data v) = nullptr")
  case True
  then show ?thesis using assms by (simp add: elems_null vector_ok_null)
next
  case False
  from vector_ok_block[OF assms False] obtain b where
    b: "block_at h (m_buffer (m_data v)) = Some b" "length b = m_capacity (m_data v)"
    by blast
  then show ?thesis using vector_ok_size[OF assms] by (simp add: elems_block)
qed

lemma live_take:
  assumes "\<forall>j. j < n \<longrightarrow> b ! j \<noteq> None" "n \<le> length b"
  shows "map Some (map the (take n b)) = take n b"
  using assms by (auto intro!: nth_equalityI)

section \<open>Relocation and append\<close>

lemma transfer_n_zero [simp]: "transfer_n T src 0 dst h = Normal h"
  by (simp add: transfer_n_def uninitialized_move_n_def uninitialized_copy_n_def)

lemma relocate_ok:
  assumes ok: "vector_ok h v" and nb: "block_at h np = Some nb"
    and ne: "np \<noteq> m_buffer (m_data v)" and len: "m_size v \<le> length nb"
    and quiet: "\<forall>x\<in>set (elems h v). \<not> transfer_throws T x"
  shows "\<exists>h3 h4 h5. transfer_n T (GetAddress (m_data v)) (m_size v) (np, 0) h = Normal h3 \<and>
           destroy_n (GetAddress (m_data v)) (m_size v) h3 = Some h4 \<and>
           RawMemory_dtor (m_data v) h4 = Some h5 \<and>
           avail h5 = avail h + bytes_at h (m_buffer (m_data v)) \<and>
           block_at h5 np = Some (map Some (elems h v) @ drop (m_size v) nb) \<and>
           (\<forall>a. a \<noteq> np \<and> a \<noteq> m_buffer (m_data v) \<longrightarrow> block_at h5 a = block_at h a) \<and>
           block_at h5 (m_buffer (m_data v)) = None \<and>
           (\<forall>a. a \<noteq> m_buffer (m_data v) \<longrightarrow> bytes_at h5 a = bytes_at h a)"
proof (cases "m_buffer (m_data v) = nullptr")
  case True
  with ok have z: "m_capacity (m_data v) = 0" "m_size v = 0" by (simp_all add: vector_ok_null)
  have "elems h v = []" using ok True by (rule elems_null)
  then show ?thesis
    using True z nb by (simp add: RawMemory_dtor_null)
next
  case False
  let ?p = "m_buffer (m_data v)"
  let ?n = "m_size v"
  from vector_ok_block[OF ok False] obtain b where
    b: "block_at h ?p = Some b" "length b = m_capacity (m_data v)" "\<forall>j. j < ?n \<longrightarrow> b ! j \<noteq> None"
    by blast
  have sz: "?n \<le> length b" using vector_ok_size[OF ok] b(2) by simp
  have el: "elems h v = map the (take ?n b)" using b(1) by (rule elems_block)
  have q: "\<forall>j. 0 \<le> j \<and> j < 0 + ?n \<longrightarrow> (\<exists>x. b ! j = Some x \<and> \<not> transfer_throws T x)"
  proof (intro allI impI)
    fix j assume j: "0 \<le> j \<and> j < 0 + ?n"
    then obtain x where x: "b ! j = Some x" using b(3) by auto
    have "j < length (elems h v)" "elems h v ! j = the (b ! j)"
      using j sz unfolding el by simp_all
    then have "the (b ! j) \<in> set (elems h v)"
      by (metis nth_mem)
    with x quiet show "\<exists>x. b ! j = Some x \<and> \<not> transfer_throws T x" by auto
  qed
  have l0: "0 + ?n \<le> length b" "0 + ?n \<le> length nb" using sz len by simp_all
  from transfer_n_obs[OF b(1) nb ne[symmetric] l0 q]
  obtain h3 bs' where h3: "transfer_n T (?p, 0) ?n (np, 0) h = Normal h3" "avail h3 = avail h"
     "block_at h3 np = Some (take 0 nb @ take ?n (drop 0 b) @ drop (0 + ?n) nb)"
     "block_at h3 ?p = Some bs'" "length bs' = length b"
     "\<forall>j. j < length b \<and> b ! j \<noteq> None \<longrightarrow> bs' ! j \<noteq> None"
     "\<forall>a. a \<noteq> np \<and> a \<noteq> ?p \<longrightarrow> block_at h3 a = block_at h a"
    by blast
  have live': "\<forall>j. 0 \<le> j \<and> j < 0 + ?n \<longrightarrow> bs' ! j \<noteq> None"
    using h3(6) b(3) sz by auto
  have l1: "0 + ?n \<le> length bs'" using sz h3(5) by simp
  from destroy_n_obs[OF h3(4) l1 live']
  obtain h4 where h4: "destroy_n (?p, 0) ?n h3 = Some h4" "avail h4 = avail h3"
    "block_at h4 ?p = Some (take 0 bs' @ replicate ?n None @ drop (0 + ?n) bs')"
    "\<forall>a. a \<noteq> ?p \<longrightarrow> block_at h4 a = block_at h3 a"
    by blast
  from RawMemory_dtor_ok[OF h4(3)]
  obtain h5 where h5: "RawMemory_dtor (m_data v) h4 = Some h5"
    "avail h5 = avail h4 + bytes_at h4 ?p"
    "block_at h5 ?p = None" "\<forall>a. a \<noteq> ?p \<longrightarrow> block_at h5 a = block_at h4 a"
    "\<forall>a. a \<noteq> ?p \<longrightarrow> bytes_at h5 a = bytes_at h4 a"
    by blast
  have by4: "bytes_at h4 = bytes_at h"
    using transfer_n_bytes[of T "(?p, 0)" ?n "(np, 0)" h h3] destroy_n_bytes[OF h4(1)] h3(1)
    by simp
  have av: "avail h5 = avail h + bytes_at h ?p"
    using h5(2) h4(2) h3(2) by4 by simp
  have by5: "\<forall>a. a \<noteq> ?p \<longrightarrow> bytes_at h5 a = bytes_at h a"
    using h5(5) by4 by simp
  have "map Some (elems h v) = take ?n b"
    unfolding el using b(3) sz by (intro live_take) auto
  then have np: "block_at h5 np = Some (map Some (elems h v) @ drop ?n nb)"
    using h5(4) h4(4) h3(3) ne by simp
  have fr: "\<forall>a. a \<noteq> np \<and> a \<noteq> ?p \<longrightarrow> block_at h5 a = block_at h a"
    using h5(4) h4(4) h3(7) by simp
  show ?thesis
    using h3(1) h4(1) h5(1) av np fr h5(3) by5 by (simp add: GetAddress_def)
qed

lemma vector_ok_frame:
  "vector_ok h v \<Longrightarrow> block_at h' (m_buffer (m_data v)) = block_at h (m_buffer (m_data v)) \<Longrightarrow>
   vector_ok h' v"
  by (simp add: vector_ok_def)

lemma elems_frame:
  "block_at h' (m_buffer (m_data v)) = block_at h (m_buffer (m_data v)) \<Longrightarrow> elems h' v = elems h v"
  by (simp add: elems_def region_def)

lemma vector_ok_fresh:
  assumes "vector_ok h v"
  shows "Suc (length (blocks h)) \<noteq> m_buffer (m_data v)"
proof
  assume e: "Suc (length (blocks h)) = m_buffer (m_data v)"
  then have nn: "m_buffer (m_data v) \<noteq> nullptr" by (simp add: nullptr_def)
  from vector_ok_block[OF assms nn] obtain b where "block_at h (m_buffer (m_data v)) = Some b"
    by blast
  with e show False by (metis block_at_fresh option.distinct(1))
qed

lemma construct_at_obs:
  assumes "block_at h p = Some b" "i < length b"
  shows "\<exists>h'. construct_at h (p, i) x = Some h' \<and> avail h' = avail h \<and>
           block_at h' p = Some (b[i := Some x]) \<and>
           (\<forall>a. a \<noteq> p \<longrightarrow> block_at h' a = block_at h a)"
  using assms by (auto simp: construct_at_def write_slot_block block_at_set_block)

lemma EmplaceBack_in_place:
  assumes ok: "vector_ok h v" and room: "m_size v < m_capacity (m_data v)"
  shows "\<exists>h'. EmplaceBack T (Some x) (h, v) =
             Normal ((h', v\<lparr>m_size := m_size v + 1\<rparr>), (m_buffer (m_data v), m_size v)) \<and>
           vector_ok h' (v\<lparr>m_size := m_size v + 1\<rparr>) \<and>
           elems h' (v\<lparr>m_size := m_size v + 1\<rparr>) = elems h v @ [x] \<and>
           avail h' = avail h \<and> bytes_at h' = bytes_at h"
proof -
  let ?p = "m_buffer (m_data v)"
  let ?n = "m_size v"
  let ?v' = "v\<lparr>m_size := m_size v + 1\<rparr>"
  have nn: "?p \<noteq> nullptr" using ok room by (auto simp: vector_ok_def)
  from vector_ok_block[OF ok nn] obtain b where
    b: "block_at h ?p = Some b" "length b = m_capacity (m_data v)" "\<forall>j. j < ?n \<longrightarrow> b ! j \<noteq> None"
    by blast
  have i: "?n < length b" using room b(2) by simp
  from construct_at_obs[OF b(1) i]
  obtain h' where h': "construct_at h (?p, ?n) x = Some h'" "avail h' = avail h"
    "block_at h' ?p = Some (b[?n := Some x])"
    by blast
  have run: "EmplaceBack T (Some x) (h, v) = Normal ((h', ?v'), (?p, ?n))"
    using room h'(1)
    by (simp add: EmplaceBack_def Capacity_def RawMemory_plus_def EmplaceBack_finish_def RawMemory_index_def)
  have ok': "vector_ok h' ?v'"
  proof (rule vector_okI)
    show "block_at h' (m_buffer (m_data ?v')) = Some (b[?n := Some x])" using h'(3) by simp
    show "length (b[?n := Some x]) = m_capacity (m_data ?v')" using b(2) by simp
    show "m_size ?v' \<le> m_capacity (m_data ?v')" using room by simp
    show "\<forall>j. j < m_size ?v' \<longrightarrow> b[?n := Some x] ! j \<noteq> None"
      using b(3) i by (auto simp: nth_list_update)
  qed
  have "elems h' ?v' = map the (take (Suc ?n) (b[?n := Some x]))"
    using h'(3) by (simp add: elems_def region_def)
  also have "\<dots> = map the (take ?n b) @ [x]"
    using i by (simp add: take_Suc_conv_app_nth)
  also have "\<dots> = elems h v @ [x]"
    using b(1) by (simp add: elems_block)
  finally show ?thesis using run ok' h'(2) construct_at_bytes[OF h'(1)] by blast
qed

lemma no_wrapD:
  assumes "no_wrap T n"
  shows "0 < sizeof_elem T" "n * sizeof_elem T < 2 ^ 64"
  using assms by (simp_all add: no_wrap_def)

lemma no_wrap_mono: "no_wrap T n \<Longrightarrow> m \<le> n \<Longrightarrow> no_wrap T m"
proof -
  assume a: "no_wrap T n" "m \<le> n"
  have "m * sizeof_elem T \<le> n * sizeof_elem T" using a(2) by (rule mult_le_mono1)
  moreover have "n * sizeof_elem T < 2 ^ 64" "0 < sizeof_elem T"
    using a(1) by (simp_all add: no_wrap_def)
  ultimately have "m * sizeof_elem T < 2 ^ 64" by (meson le_less_trans)
  then show ?thesis using a(1) by (simp add: no_wrap_def)
qed

lemma EmplaceBack_grow:
  assumes ok: "vector_ok h v" and full: "\<not> m_size v < m_capacity (m_data v)"
    and nw: "no_wrap T (max 1 (2 * m_capacity (m_data v)))"
    and mem: "max 1 (2 * m_capacity (m_data v)) * sizeof_elem T \<le> avail h"
    and quiet: "\<forall>x\<in>set (elems h v). \<not> transfer_throws T x"
  shows "\<exists>h' d. EmplaceBack T (Some x) (h, v) =
             Normal ((h', \<lparr>m_size = m_size v + 1, m_data = d\<rparr>), (m_buffer d, m_size v)) \<and>
           m_capacity d = max 1 (2 * m_capacity (m_data v)) \<and>
           vector_ok h' \<lparr>m_size = m_size v + 1, m_data = d\<rparr> \<and>
           elems h' \<lparr>m_size = m_size v + 1, m_data = d\<rparr> = elems h v @ [x] \<and>
           avail h' + m_capacity d * sizeof_elem T =
             avail h + bytes_at h (m_buffer (m_data v)) \<and>
           bytes_at h' (m_buffer d) = m_capacity d * sizeof_elem T"
proof -
  let ?p = "m_buffer (m_data v)"
  let ?n = "m_size v"
  let ?c = "max 1 (2 * m_capacity (m_data v))"
  let ?s = "sizeof_elem T"
  let ?np = "Suc (length (blocks h))"
  let ?d = "\<lparr>m_buffer = ?np, m_capacity = ?c\<rparr>"
  let ?v' = "\<lparr>m_size = ?n + 1, m_data = ?d\<rparr>"
  have eq: "?n = m_capacity (m_data v)" using vector_ok_size[OF ok] full by simp
  have nc: "(if ?n = 0 then 1 else Capacity (m_data v) * 2) = ?c"
    using eq by (simp add: Capacity_def)
  have c0: "?c \<noteq> 0" by simp
  from RawMemory_sized_ok[OF mem c0 no_wrapD[OF nw]]
  obtain h1 where h1: "RawMemory_sized T ?c h = Normal (?d, h1)" "avail h1 = avail h - ?c * ?s"
    "block_at h1 ?np = Some (replicate ?c None)"
    "\<forall>a. a \<noteq> ?np \<longrightarrow> block_at h1 a = block_at h a"
    "bytes_at h1 ?np = ?c * ?s"
    "\<forall>a. a \<noteq> ?np \<longrightarrow> bytes_at h1 a = bytes_at h a"
    by blast
  have ne: "?np \<noteq> ?p" using ok by (rule vector_ok_fresh)
  have lt: "?n < ?c" using eq by simp
  have lt': "?n < length (replicate ?c (None :: 'a option))" using lt by simp
  from construct_at_obs[OF h1(3) lt']
  obtain h2 where h2: "construct_at h1 (?np, ?n) x = Some h2" "avail h2 = avail h1"
    "block_at h2 ?np = Some ((replicate ?c None)[?n := Some x])"
    "\<forall>a. a \<noteq> ?np \<longrightarrow> block_at h2 a = block_at h1 a"
    by blast
  have same: "block_at h2 ?p = block_at h ?p" using h2(4) h1(4) ne by simp
  have ok2: "vector_ok h2 v" using ok same by (rule vector_ok_frame)
  have el2: "elems h2 v = elems h v" using same by (rule elems_frame)
  have len2: "?n \<le> length ((replicate ?c (None :: 'a option))[?n := Some x])" using lt by simp
  have q2: "\<forall>x\<in>set (elems h2 v). \<not> transfer_throws T x" using quiet el2 by simp
  from relocate_ok[OF ok2 h2(3) ne len2 q2]
  obtain h3 h4 h5 where r:
    "transfer_n T (GetAddress (m_data v)) ?n (?np, 0) h2 = Normal h3"
    "destroy_n (GetAddress (m_data v)) ?n h3 = Some h4"
    "RawMemory_dtor (m_data v) h4 = Some h5"
    "avail h5 = avail h2 + bytes_at h2 ?p"
    "block_at h5 ?np = Some (map Some (elems h2 v) @ drop ?n ((replicate ?c None)[?n := Some x]))"
    "\<forall>a. a \<noteq> ?p \<longrightarrow> bytes_at h5 a = bytes_at h2 a"
    by blast
  have by2: "bytes_at h2 = bytes_at h1" using h2(1) by (rule construct_at_bytes)
  have byp: "bytes_at h2 ?p = bytes_at h ?p"
    using by2 h1(6) ne by simp
  have bynp: "bytes_at h5 ?np = ?c * ?s" using r(6) ne by2 h1(5) by simp
  have full': "\<not> ?n < Capacity (m_data v)" using full by (simp add: Capacity_def)
  have run: "EmplaceBack T (Some x) (h, v) = Normal ((h5, ?v'), (?np, ?n))"
    using full' nc h1(1) lt h2(1) r(1,2,3)
    by (simp add: EmplaceBack_def Let_def RawMemory_plus_def RawMemory_Swap_def
        EmplaceBack_finish_def RawMemory_index_def GetAddress_def)
  have "drop ?n ((replicate ?c (None :: 'a option))[?n := Some x]) =
        (replicate ?c None)[?n := Some x] ! ?n # drop (Suc ?n) ((replicate ?c None)[?n := Some x])"
    using lt' by (intro Cons_nth_drop_Suc[symmetric]) simp
  then have dr: "drop ?n ((replicate ?c (None :: 'a option))[?n := Some x]) = Some x # replicate (?c - Suc ?n) None"
    using lt by simp
  let ?nb = "map Some (elems h v) @ Some x # replicate (?c - Suc ?n) None"
  have blk: "block_at h5 ?np = Some ?nb" using r(5) dr el2 by simp
  have le: "length (elems h v) = ?n" using ok by (rule length_elems)
  have ok': "vector_ok h5 ?v'"
  proof (rule vector_okI)
    show "block_at h5 (m_buffer (m_data ?v')) = Some ?nb" using blk by simp
    show "length ?nb = m_capacity (m_data ?v')" using le lt by simp
    show "m_size ?v' \<le> m_capacity (m_data ?v')" using lt by simp
    show "\<forall>j. j < m_size ?v' \<longrightarrow> ?nb ! j \<noteq> None"
      using le by (auto simp: nth_append nth_Cons')
  qed
  have "elems h5 ?v' = map the (take (Suc ?n) ?nb)"
    using blk by (simp add: elems_def region_def)
  also have "\<dots> = elems h v @ [x]"
    using le by (simp add: comp_def)
  finally have el: "elems h5 ?v' = elems h v @ [x]" .
  have av: "avail h5 + ?c * ?s = avail h + bytes_at h ?p"
    using r(4) h2(2) h1(2) mem byp by simp
  show ?thesis
    using run ok' el av bynp by (intro exI[of _ h5] exI[of _ ?d]) simp
qed

lemma doubled_in_place: "doubled n c \<Longrightarrow> n < c \<Longrightarrow> doubled (Suc n) c"
  by (auto simp: doubled_def split: if_splits)

lemma doubled_grow: "doubled n c \<Longrightarrow> \<not> n < c \<Longrightarrow> n \<le> c \<Longrightarrow> doubled (Suc n) (max 1 (2 * c))"
proof (cases "n = 0")
  case True
  assume "doubled n c"
  with True have "c = 0" by (simp add: doubled_def)
  then have "max 1 (2 * c) = 2 ^ 0" by simp
  then show ?thesis using True unfolding doubled_def by (auto intro!: exI[of _ 0])
next
  case False
  assume d: "doubled n c" and "\<not> n < c" "n \<le> c"
  then have nc: "n = c" by simp
  from d False obtain k where k: "c = 2 ^ k" by (auto simp: doubled_def)
  have "max 1 (2 * c) = 2 ^ Suc k" using k by simp
  moreover have "Suc n \<le> 2 ^ Suc k" "(2::nat) ^ Suc k < 2 * Suc n" using nc k False by simp_all
  ultimately show ?thesis unfolding doubled_def by (auto intro!: exI[of _ "Suc k"])
qed

lemma append_call_EmplaceBack:
  "\<not> append_throws T a \<Longrightarrow>
   append_call T a s = drop_result (EmplaceBack T (Some (appended a)) s)"
  by (cases a) (simp_all add: PushBack_def PushBack_rvalue_def)

lemma appends_ok:
  "vector_ok h v \<Longrightarrow> bytes_at h (m_buffer (m_data v)) = m_capacity (m_data v) * sizeof_elem T \<Longrightarrow>
   doubled (m_size v) (m_capacity (m_data v)) \<Longrightarrow>
   no_wrap T (3 * (m_size v + length as)) \<Longrightarrow>
   3 * (m_size v + length as) * sizeof_elem T \<le> avail h + m_capacity (m_data v) * sizeof_elem T \<Longrightarrow>
   \<forall>x\<in>set (elems h v) \<union> appended ` set as. \<not> transfer_throws T x \<Longrightarrow>
   \<forall>a\<in>set as. \<not> append_throws T a \<Longrightarrow>
   \<exists>h' v'. appends T as (h, v) = Normal (h', v') \<and> vector_ok h' v' \<and>
     m_size v' = m_size v + length as \<and> elems h' v' = elems h v @ map appended as \<and>
     doubled (m_size v') (m_capacity (m_data v'))"
proof (induction as arbitrary: h v)
  case Nil
  then show ?case by simp
next
  case (Cons a as)
  let ?n = "m_size v"
  let ?c = "m_capacity (m_data v)"
  let ?s = "sizeof_elem T"
  let ?x = "appended a"
  have cx: "\<not> append_throws T a" using Cons.prems(7) by simp
  have qv: "\<forall>y\<in>set (elems h v). \<not> transfer_throws T y" using Cons.prems(6) by simp
  have "\<exists>h1 v1. EmplaceBack T (Some ?x) (h, v) = Normal ((h1, v1), (m_buffer (m_data v1), ?n)) \<and>
          vector_ok h1 v1 \<and> m_size v1 = Suc ?n \<and> elems h1 v1 = elems h v @ [?x] \<and>
          doubled (m_size v1) (m_capacity (m_data v1)) \<and>
          avail h1 + m_capacity (m_data v1) * ?s = avail h + ?c * ?s \<and>
          bytes_at h1 (m_buffer (m_data v1)) = m_capacity (m_data v1) * ?s"
  proof (cases "?n < ?c")
    case True
    from EmplaceBack_in_place[OF Cons.prems(1) True, of T ?x]
    obtain h1 where h1: "EmplaceBack T (Some ?x) (h, v) = Normal ((h1, v\<lparr>m_size := ?n + 1\<rparr>), (m_buffer (m_data v), ?n))"
      "vector_ok h1 (v\<lparr>m_size := ?n + 1\<rparr>)" "elems h1 (v\<lparr>m_size := ?n + 1\<rparr>) = elems h v @ [?x]"
      "avail h1 = avail h" "bytes_at h1 = bytes_at h"
      by blast
    have "doubled (Suc ?n) ?c" using Cons.prems(3) True by (rule doubled_in_place)
    then show ?thesis
      using h1 Cons.prems(2) by (intro exI[of _ h1] exI[of _ "v\<lparr>m_size := ?n + 1\<rparr>"]) simp
  next
    case False
    have le: "?n \<le> ?c" using Cons.prems(1) by (rule vector_ok_size)
    then have eq: "?n = ?c" using False by simp
    have b: "max 1 (2 * ?c) + ?c \<le> 3 * (?n + length (a # as))" using eq by simp
    then have "(max 1 (2 * ?c) + ?c) * ?s \<le> 3 * (?n + length (a # as)) * ?s"
      by (rule mult_le_mono1)
    then have "(max 1 (2 * ?c) + ?c) * ?s \<le> avail h + ?c * ?s"
      using Cons.prems(5) by (rule le_trans)
    then have mem: "max 1 (2 * ?c) * ?s \<le> avail h" by (simp add: add_mult_distrib)
    have "max 1 (2 * ?c) \<le> 3 * (?n + length (a # as))" using b by simp
    with Cons.prems(4) have nw: "no_wrap T (max 1 (2 * ?c))" by (rule no_wrap_mono)
    from EmplaceBack_grow[OF Cons.prems(1) False nw mem qv, of ?x]
    obtain h1 d where h1: "EmplaceBack T (Some ?x) (h, v) = Normal ((h1, \<lparr>m_size = ?n + 1, m_data = d\<rparr>), (m_buffer d, ?n))"
      "m_capacity d = max 1 (2 * ?c)" "vector_ok h1 \<lparr>m_size = ?n + 1, m_data = d\<rparr>"
      "elems h1 \<lparr>m_size = ?n + 1, m_data = d\<rparr> = elems h v @ [?x]"
      "avail h1 + m_capacity d * ?s = avail h + bytes_at h (m_buffer (m_data v))"
      "bytes_at h1 (m_buffer d) = m_capacity d * ?s"
      by blast
    have "doubled (Suc ?n) (max 1 (2 * ?c))" using Cons.prems(3) False le by (rule doubled_grow)
    then show ?thesis
      using h1 Cons.prems(2)
      by (intro exI[of _ h1] exI[of _ "\<lparr>m_size = ?n + 1, m_data = d\<rparr>"]) simp
  qed
  then obtain h1 v1 where s1: "EmplaceBack T (Some ?x) (h, v) = Normal ((h1, v1), (m_buffer (m_data v1), ?n))"
     "vector_ok h1 v1" "m_size v1 = Suc ?n" "elems h1 v1 = elems h v @ [?x]"
     "doubled (m_size v1) (m_capacity (m_data v1))"
     "avail h1 + m_capacity (m_data v1) * ?s = avail h + ?c * ?s"
     "bytes_at h1 (m_buffer (m_data v1)) = m_capacity (m_data v1) * ?s"
    by blast
  have pb: "append_call T a (h, v) = Normal (h1, v1)"
    using s1(1) by (simp add: append_call_EmplaceBack[OF cx] drop_result_def)
  have n1: "no_wrap T (3 * (m_size v1 + length as))"
    using Cons.prems(4) s1(3) by simp
  have m1: "3 * (m_size v1 + length as) * ?s \<le> avail h1 + m_capacity (m_data v1) * ?s"
    using Cons.prems(5) s1(3,6) by simp
  have q1: "\<forall>y\<in>set (elems h1 v1) \<union> appended ` set as. \<not> transfer_throws T y"
    using Cons.prems(6) s1(4) by simp
  have c1: "\<forall>y\<in>set as. \<not> append_throws T y" using Cons.prems(7) by simp
  from Cons.IH[OF s1(2) s1(7) s1(5) n1 m1 q1 c1]
  obtain h' v' where r: "appends T as (h1, v1) = Normal (h', v')" "vector_ok h' v'"
    "m_size v' = m_size v1 + length as" "elems h' v' = elems h1 v1 @ map appended as"
    "doubled (m_size v') (m_capacity (m_data v'))"
    by blast
  show ?case
    using pb r s1(3,4) by (intro exI[of _ h'] exI[of _ v']) simp
qed

lemma vector_ok_default: "vector_ok h Vector_default"
  by (simp add: vector_ok_def Vector_default_def RawMemory_default_def)

lemma elems_default: "elems h Vector_default = []"
  by (simp add: elems_def Vector_default_def)

lemma EmplaceBack_capacity:
  assumes "EmplaceBack T arg (h, v) = Normal ((h', v'), p)" "m_size v = m_capacity (m_data v)"
  shows "m_capacity (m_data v') = max 1 (m_capacity (m_data v) * 2)"
  using assms
  by (auto simp: EmplaceBack_def Let_def Capacity_def RawMemory_sized_def RawMemory_Swap_def
      EmplaceBack_finish_def split: outcome.splits option.splits prod.splits if_splits)

text \<open>C3. A sequence of appends to a default-constructed vector, each of them
  \<^verbatim>\<open>PushBack\<close> of an lvalue, \<^verbatim>\<open>PushBack\<close> of an rvalue or \<^verbatim>\<open>EmplaceBack\<close>, where neither
  the construction of a new element nor the transfer of one throws, and where three
  times the bytes of the appended values are a value of \<^verbatim>\<open>size_t\<close> that the allocator
  can hand out: after each of the appends (\<open>m\<close> of them, for
  every \<open>m\<close> up to their number) the call has returned, the size is \<open>m\<close>, the elements are
  the first \<open>m\<close> appended values in the order of insertion, and the capacity is 0 for
  \<open>m = 0\<close> and otherwise the power of two with \<open>m \<le> capacity < 2 m\<close>, which makes the
  capacities 1, 2, 4, 8, ... . And whenever \<^verbatim>\<open>EmplaceBack\<close> returns from a vector whose
  size equals its capacity, the new capacity is \<open>max 1 (capacity * 2)\<close>.\<close>

theorem appends_from_empty:
  assumes quiet: "\<forall>a\<in>set as. \<not> append_throws T a \<and> \<not> transfer_throws T (appended a)"
    and nw: "no_wrap T (3 * length as)"
    and mem: "3 * length as * sizeof_elem T \<le> avail h"
  shows "(\<forall>m. m \<le> length as \<longrightarrow>
           (\<exists>h' v'. appends T (take m as) (h, Vector_default) = Normal (h', v') \<and>
              m_size v' = m \<and> elems h' v' = map appended (take m as) \<and>
              (if m = 0 then m_capacity (m_data v') = 0
               else (\<exists>k. m_capacity (m_data v') = 2 ^ k \<and> m \<le> 2 ^ k \<and> 2 ^ k < 2 * m)))) \<and>
         (\<forall>arg h1 v1 h2 v2 p.
            m_size v1 = m_capacity (m_data v1) \<and> EmplaceBack T arg (h1, v1) = Normal ((h2, v2), p)
            \<longrightarrow> m_capacity (m_data v2) = max 1 (m_capacity (m_data v1) * 2))"
proof (intro conjI allI impI)
  fix m assume m: "m \<le> length as"
  let ?v = "Vector_default"
  have d0: "doubled (m_size ?v) (m_capacity (m_data ?v))"
    by (simp add: doubled_def Vector_default_def RawMemory_default_def)
  have "3 * m * sizeof_elem T \<le> 3 * length as * sizeof_elem T"
    using m by (intro mult_le_mono1) simp
  then have "3 * m * sizeof_elem T \<le> avail h" using mem by (rule le_trans)
  then have m0: "3 * (m_size ?v + length (take m as)) * sizeof_elem T
      \<le> avail h + m_capacity (m_data ?v) * sizeof_elem T"
    using m by (simp add: Vector_default_def RawMemory_default_def min_absorb2)
  have b0: "bytes_at h (m_buffer (m_data ?v)) = m_capacity (m_data ?v) * sizeof_elem T"
    by (simp add: Vector_default_def RawMemory_default_def)
  have n0: "no_wrap T (3 * (m_size ?v + length (take m as)))"
    using no_wrap_mono[OF nw, of "3 * m"] m by (simp add: Vector_default_def min_absorb2)
  have q0: "\<forall>x\<in>set (elems h ?v) \<union> appended ` set (take m as). \<not> transfer_throws T x"
    using quiet by (auto simp: elems_default dest: in_set_takeD)
  have c0: "\<forall>a\<in>set (take m as). \<not> append_throws T a"
    using quiet by (auto dest: in_set_takeD)
  from appends_ok[OF vector_ok_default b0 d0 n0 m0 q0 c0]
  obtain h' v' where r: "appends T (take m as) (h, ?v) = Normal (h', v')"
    "m_size v' = m_size ?v + length (take m as)" "elems h' v' = elems h ?v @ map appended (take m as)"
    "doubled (m_size v') (m_capacity (m_data v'))"
    by blast
  have sz: "m_size v' = m" using r(2) m by (simp add: Vector_default_def)
  have "if m = 0 then m_capacity (m_data v') = 0
        else (\<exists>k. m_capacity (m_data v') = 2 ^ k \<and> m \<le> 2 ^ k \<and> 2 ^ k < 2 * m)"
    using r(4) unfolding sz doubled_def by auto
  then show "\<exists>h' v'. appends T (take m as) (h, Vector_default) = Normal (h', v') \<and>
              m_size v' = m \<and> elems h' v' = map appended (take m as) \<and>
              (if m = 0 then m_capacity (m_data v') = 0
               else (\<exists>k. m_capacity (m_data v') = 2 ^ k \<and> m \<le> 2 ^ k \<and> 2 ^ k < 2 * m))"
    using r(1,3) sz by (intro exI[of _ h'] exI[of _ v']) (simp add: elems_default)
next
  fix arg h1 v1 h2 v2 p
  assume "m_size v1 = m_capacity (m_data v1) \<and> EmplaceBack T arg (h1, v1) = Normal ((h2, v2), p)"
  then show "m_capacity (m_data v2) = max 1 (m_capacity (m_data v1) * 2)"
    using EmplaceBack_capacity by blast
qed

section \<open>The size never exceeds the capacity\<close>

lemma RawMemory_sized_capacity:
  "RawMemory_sized T n h = Normal (d, h') \<Longrightarrow> m_capacity d = n"
  by (auto simp: RawMemory_sized_def split: outcome.splits prod.splits)

lemma Reserve_Normal:
  "Reserve T n (h, v) = Normal (h', v') \<Longrightarrow>
   m_size v' = m_size v \<and> m_capacity (m_data v) \<le> m_capacity (m_data v') \<and> n \<le> m_capacity (m_data v')"
  by (auto simp: Reserve_def Let_def Capacity_def RawMemory_Swap_def
      dest!: RawMemory_sized_capacity split: outcome.splits option.splits prod.splits if_splits)

lemma Reserve_Raised:
  "Reserve T n (h, v) = Raised e (h', v') \<Longrightarrow> v' = v"
  by (auto simp: Reserve_def Let_def
      split: outcome.splits option.splits prod.splits if_splits)

lemma Reserve_fits:
  "fits v \<Longrightarrow> Reserve T n (h, v) = Normal (h', v') \<or> Reserve T n (h, v) = Raised e (h', v') \<Longrightarrow> fits v'"
  by (auto simp: fits_def dest: Reserve_Normal Reserve_Raised)

lemma Resize_fits:
  assumes "fits v" "Resize T n (h, v) = Normal (h', v') \<or> Resize T n (h, v) = Raised e (h', v')"
  shows "fits v'"
proof (cases "n > Capacity (m_data v)")
  case True
  then have gt: "m_size v < n" using assms(1) by (simp add: fits_def Capacity_def)
  show ?thesis
  proof (cases "Reserve T n (h, v)")
    case (Normal s1)
    obtain h1 v1 where s1: "s1 = (h1, v1)" by (cases s1)
    from Reserve_Normal[OF Normal[unfolded s1]]
    have f1: "m_size v1 = m_size v" "n \<le> m_capacity (m_data v1)" by simp_all
    show ?thesis
      using assms(2) True gt Normal s1 f1
      by (auto simp: Resize_def Let_def fits_def split: outcome.splits)
  next
    case (Raised e1 s1)
    obtain h1 v1 where s1: "s1 = (h1, v1)" by (cases s1)
    from Reserve_Raised[OF Raised[unfolded s1]] have "v1 = v" .
    then show ?thesis
      using assms True gt Raised s1 by (auto simp: Resize_def Let_def)
  next
    case Undefined
    then show ?thesis using assms(2) True gt by (auto simp: Resize_def Let_def)
  qed
next
  case False
  show ?thesis
    using assms False
    by (auto simp: Resize_def Let_def fits_def Capacity_def
        split: outcome.splits option.splits prod.splits if_splits)
qed

lemma PopBack_fits: "fits v \<Longrightarrow> PopBack (h, v) = Some (h', v') \<Longrightarrow> fits v'"
  by (auto simp: PopBack_def Let_def fits_def split: option.splits if_splits)

lemma EmplaceBack_fits:
  assumes "fits v"
    "EmplaceBack T arg (h, v) = Normal ((h', v'), p) \<or> EmplaceBack T arg (h, v) = Raised e (h', v')"
  shows "fits v'"
  using assms
  by (auto simp: EmplaceBack_def Let_def fits_def Capacity_def RawMemory_Swap_def EmplaceBack_finish_def
      dest!: RawMemory_sized_capacity split: outcome.splits option.splits prod.splits if_splits)

lemma EmplaceWithRealloc_header:
  "EmplaceWithRealloc T dist arg (h, v) = Raised e (h', v') \<Longrightarrow> v' = v"
  "EmplaceWithRealloc T dist arg (h, v) = Normal (h', v') \<Longrightarrow>
     m_size v' = m_size v \<and> m_capacity (m_data v') = (if m_size v = 0 then 1 else m_size v * 2)"
  by (auto simp: EmplaceWithRealloc_def Let_def RawMemory_Swap_def
      dest!: RawMemory_sized_capacity split: outcome.splits option.splits prod.splits if_splits)

lemma EmplaceWithoutRealloc_Normal:
  "EmplaceWithoutRealloc T dist arg (h, v) = Normal (h', v') \<Longrightarrow> v' = v"
  by (auto simp: EmplaceWithoutRealloc_def Let_def
      split: outcome.splits option.splits prod.splits if_splits)

lemma EmplaceWithoutRealloc_Raised:
  "EmplaceWithoutRealloc T dist arg (h, v) = Raised e (h', v') \<Longrightarrow> v' = v"
  by (auto simp: EmplaceWithoutRealloc_def Let_def
      split: outcome.splits option.splits prod.splits if_splits)

lemma Emplace_fits:
  assumes "fits v"
    "Emplace T pos arg (h, v) = Normal ((h', v'), p) \<or> Emplace T pos arg (h, v) = Raised e (h', v')"
  shows "fits v'"
proof (cases "Vector_end v")
  case None
  then show ?thesis using assms(2) by (simp add: Emplace_def)
next
  case (Some en)
  show ?thesis
  proof (cases "pos = en")
    case True
    then show ?thesis using assms Some EmplaceBack_fits[of v T arg h h' v' p e]
      by (simp add: Emplace_def)
  next
    case False
    show ?thesis
    proof (cases "distance (Vector_begin v) pos")
      case None
      then show ?thesis using assms(2) Some False by (simp add: Emplace_def)
    next
      case (Some dist)
      show ?thesis
      proof (cases "m_size v < Capacity (m_data v)")
        case True
        then have lt: "m_size v < m_capacity (m_data v)" by (simp add: Capacity_def)
        show ?thesis
        proof (cases "EmplaceWithoutRealloc T dist arg (h, v)")
          case (Normal s1)
          obtain h1 v1 where s1: "s1 = (h1, v1)" by (cases s1)
          from EmplaceWithoutRealloc_Normal[OF Normal[unfolded s1]] have "v1 = v" .
          then show ?thesis
            using assms(2) \<open>Vector_end v = Some en\<close> False Some True Normal s1 lt
            by (auto simp: Emplace_def Let_def fits_def)
        next
          case (Raised e1 s1)
          obtain h1 v1 where s1: "s1 = (h1, v1)" by (cases s1)
          from EmplaceWithoutRealloc_Raised[OF Raised[unfolded s1]] have "v1 = v" .
          then show ?thesis
            using assms \<open>Vector_end v = Some en\<close> False Some True Raised s1
            by (auto simp: Emplace_def Let_def)
        next
          case Undefined
          then show ?thesis
            using assms(2) \<open>Vector_end v = Some en\<close> False Some True by (auto simp: Emplace_def Let_def)
        qed
      next
        case nr: False
        show ?thesis
        proof (cases "EmplaceWithRealloc T dist arg (h, v)")
          case (Normal s1)
          obtain h1 v1 where s1: "s1 = (h1, v1)" by (cases s1)
          from EmplaceWithRealloc_header(2)[OF Normal[unfolded s1]]
          have "m_size v1 = m_size v" "m_capacity (m_data v1) = (if m_size v = 0 then 1 else m_size v * 2)"
            by simp_all
          then show ?thesis
            using assms(2) \<open>Vector_end v = Some en\<close> False Some nr Normal s1
            by (auto simp: Emplace_def Let_def fits_def split: if_splits)
        next
          case (Raised e1 s1)
          obtain h1 v1 where s1: "s1 = (h1, v1)" by (cases s1)
          from EmplaceWithRealloc_header(1)[OF Raised[unfolded s1]] have "v1 = v" .
          then show ?thesis
            using assms \<open>Vector_end v = Some en\<close> False Some nr Raised s1
            by (auto simp: Emplace_def Let_def)
        next
          case Undefined
          then show ?thesis
            using assms(2) \<open>Vector_end v = Some en\<close> False Some nr by (auto simp: Emplace_def Let_def)
        qed
      qed
    qed
  qed
qed

lemma Erase_fits:
  assumes "fits v"
    "Erase T pos (h, v) = Normal ((h', v'), p) \<or> Erase T pos (h, v) = Raised e (h', v')"
  shows "fits v'"
  using assms
  by (auto simp: Erase_def Let_def fits_def split: outcome.splits option.splits prod.splits if_splits)

lemma Vector_sized_fits:
  "Vector_sized T n h = Normal (v, h') \<Longrightarrow> fits v"
  by (auto simp: Vector_sized_def fits_def dest!: RawMemory_sized_capacity
      split: outcome.splits option.splits prod.splits)

lemma Vector_copy_ctor_header:
  "Vector_copy_ctor T other h = Normal (v, h') \<Longrightarrow>
   m_size v = m_size other \<and> m_capacity (m_data v) = m_size other"
  by (auto simp: Vector_copy_ctor_def Size_def dest!: RawMemory_sized_capacity
      split: outcome.splits option.splits prod.splits if_splits)

lemma Vector_copy_assign_fits:
  assumes "fits v"
    "Vector_copy_assign T d (h, v) rhs = Normal (h', v') \<or>
     Vector_copy_assign T d (h, v) rhs = Raised e (h', v')"
    "d \<or> rhs = v"
  shows "fits v'"
proof (cases d)
  case False
  then show ?thesis using assms by (auto simp: Vector_copy_assign_def)
next
  case True
  show ?thesis
  proof (cases "m_size rhs > Capacity (m_data v)")
    case grow: True
    show ?thesis
      using assms(1,2) True grow
      by (auto simp: Vector_copy_assign_def Let_def fits_def Vector_Swap_def RawMemory_Swap_def
          split: outcome.splits option.splits prod.splits
          dest!: Vector_copy_ctor_header)
  next
    case reuse: False
    show ?thesis
      using assms(1,2) True reuse
      by (auto simp: Vector_copy_assign_def Let_def fits_def Capacity_def
          split: outcome.splits option.splits prod.splits if_splits)
  qed
qed

lemma Vector_move_assign_fits:
  "fits a \<Longrightarrow> fits b \<Longrightarrow> Vector_move_assign d a b = (a', b') \<Longrightarrow> fits a' \<and> fits b'"
  by (auto simp: Vector_move_assign_def RawMemory_move_assign_def fits_def split: if_splits)

lemma Vector_Swap_fits:
  "fits a \<Longrightarrow> fits b \<Longrightarrow> Vector_Swap a b = (a', b') \<Longrightarrow> fits a' \<and> fits b'"
  by (auto simp: Vector_Swap_def RawMemory_Swap_def fits_def)

lemma Vector_move_ctor_fits:
  "fits b \<Longrightarrow> Vector_move_ctor b = (a', b') \<Longrightarrow> fits a' \<and> fits b'"
  by (auto simp: Vector_move_ctor_def RawMemory_move_assign_def fits_def)

lemma on_object_fits:
  assumes run: "on_object w i f = Normal w' \<or> on_object w i f = Raised e w'"
    and inv: "\<forall>v\<in>set (objects w). fits v"
    and step: "\<And>h v h' v'. fits v \<Longrightarrow> v = objects w ! i \<Longrightarrow>
        f (h, v) = Normal (h', v') \<or> f (h, v) = Raised e (h', v') \<Longrightarrow> fits v'"
  shows "\<forall>v\<in>set (objects w'). fits v"
proof -
  from run have i: "i < length (objects w)" by (auto simp: on_object_def split: if_splits)
  then have fi: "fits (objects w ! i)" using inv by simp
  from run i obtain h' v' where
    r: "f (heap w, objects w ! i) = Normal (h', v') \<or> f (heap w, objects w ! i) = Raised e (h', v')"
    and w': "objects w' = (objects w)[i := v']"
    by (auto simp: on_object_def split: outcome.splits prod.splits)
  have "fits v'" using step[OF fi refl r] .
  then show ?thesis
    unfolding w' using inv set_update_subset_insert[of "objects w" i v'] by auto
qed

lemma on_objects_fits:
  assumes run: "on_objects w i j f = Normal w' \<or> on_objects w i j f = Raised e w'"
    and inv: "\<forall>v\<in>set (objects w). fits v"
    and step: "\<And>d a b a' b'. fits a \<Longrightarrow> fits b \<Longrightarrow> f d a b = (a', b') \<Longrightarrow> fits a' \<and> fits b'"
  shows "\<forall>v\<in>set (objects w'). fits v"
proof -
  from run have ij: "i < length (objects w)" "j < length (objects w)"
    by (auto simp: on_objects_def split: if_splits)
  obtain a' b' where ab: "f (i \<noteq> j) (objects w ! i) (objects w ! j) = (a', b')"
    by (cases "f (i \<noteq> j) (objects w ! i) (objects w ! j)") auto
  have fab: "fits a' \<and> fits b'"
    using step[OF _ _ ab] inv ij by simp
  have w': "objects w' = (objects w)[j := b', i := a']"
    using run ij ab by (auto simp: on_objects_def)
  have "set ((objects w)[j := b', i := a']) \<subseteq> insert a' (insert b' (set (objects w)))"
    using set_update_subset_insert[of "(objects w)[j := b']" i a']
      set_update_subset_insert[of "objects w" j b'] by auto
  then show ?thesis unfolding w' using inv fab by auto
qed

lemma drop_result_cases:
  "drop_result out = Normal s \<Longrightarrow> \<exists>r. out = Normal (s, r)"
  "drop_result out = Raised e s \<Longrightarrow> out = Raised e s"
  by (auto simp: drop_result_def split: outcome.splits prod.splits)

lemma exec_fits:
  assumes run: "exec T c w = Normal w' \<or> exec T c w = Raised e w'"
    and inv: "\<forall>v\<in>set (objects w). fits v"
  shows "\<forall>v\<in>set (objects w'). fits v"
proof (cases c)
  case Construct_default
  then show ?thesis using run inv
    by (auto simp: fits_def Vector_default_def RawMemory_default_def)
next
  case (Construct_sized n)
  then show ?thesis using run inv
    by (auto simp: construct_def split: outcome.splits prod.splits dest: Vector_sized_fits)
next
  case (Construct_copy j)
  then show ?thesis using run inv
    by (auto simp: construct_def fits_def split: outcome.splits prod.splits if_splits
        dest!: Vector_copy_ctor_header)
next
  case (Construct_move j)
  show ?thesis
  proof -
    from run Construct_move have j: "j < length (objects w)" by (auto split: if_splits)
    obtain a' b' where ab: "Vector_move_ctor (objects w ! j) = (a', b')"
      by (cases "Vector_move_ctor (objects w ! j)") auto
    have f: "fits a' \<and> fits b'" using Vector_move_ctor_fits[OF _ ab] inv j by simp
    have "objects w' = (objects w)[j := b'] @ [a']" using run Construct_move j ab by auto
    then show ?thesis
      using f inv set_update_subset_insert[of "objects w" j b'] by auto
  qed
next
  case (Assign_copy i j)
  show ?thesis
  proof -
    from run Assign_copy have j: "j < length (objects w)" by (auto split: if_splits)
    have m: "on_object w i (\<lambda>s. Vector_copy_assign T (i \<noteq> j) s (objects w ! j)) = Normal w' \<or>
             on_object w i (\<lambda>s. Vector_copy_assign T (i \<noteq> j) s (objects w ! j)) = Raised e w'"
      using run Assign_copy j by simp
    show ?thesis
    proof (rule on_object_fits[OF m inv])
      fix h v h' v'
      assume "fits v" "v = objects w ! i"
        "Vector_copy_assign T (i \<noteq> j) (h, v) (objects w ! j) = Normal (h', v') \<or>
         Vector_copy_assign T (i \<noteq> j) (h, v) (objects w ! j) = Raised e (h', v')"
      then show "fits v'"
        by (intro Vector_copy_assign_fits[of v T "i \<noteq> j" h "objects w ! j" h' v' e]) auto
    qed
  qed
next
  case (Assign_move i j)
  then show ?thesis using run inv
    by (intro on_objects_fits[of w i j Vector_move_assign w' e]) (auto dest: Vector_move_assign_fits)
next
  case (Call_Resize i n)
  then show ?thesis using run inv
    by (intro on_object_fits[of w i "Resize T n" w' e]) (auto dest: Resize_fits)
next
  case (Call_PushBack i x)
  then show ?thesis using run inv
    by (intro on_object_fits[of w i "PushBack T x" w' e])
       (auto simp: PushBack_def dest!: drop_result_cases dest: EmplaceBack_fits)
next
  case (Call_PushBack_rvalue i x)
  then show ?thesis using run inv
    by (intro on_object_fits[of w i "PushBack_rvalue T x" w' e])
       (auto simp: PushBack_rvalue_def dest!: drop_result_cases dest: EmplaceBack_fits)
next
  case (Call_PopBack i)
  then show ?thesis using run inv
    by (intro on_object_fits[of w i "\<lambda>s. case PopBack s of None \<Rightarrow> Undefined | Some s' \<Rightarrow> Normal s'" w' e])
       (auto split: option.splits dest: PopBack_fits)
next
  case (Call_EmplaceBack i arg)
  then show ?thesis using run inv
    by (intro on_object_fits[of w i "\<lambda>s. drop_result (EmplaceBack T arg s)" w' e])
       (auto dest!: drop_result_cases dest: EmplaceBack_fits)
next
  case (Call_Emplace i k arg)
  then show ?thesis using run inv
    by (intro on_object_fits[of w i "\<lambda>s. drop_result (Emplace T (at_offset (snd s) k) arg s)" w' e])
       (auto dest!: drop_result_cases dest: Emplace_fits)
next
  case (Call_Insert i k x)
  then show ?thesis using run inv
    by (intro on_object_fits[of w i "\<lambda>s. drop_result (Insert T (at_offset (snd s) k) x s)" w' e])
       (auto simp: Insert_def dest!: drop_result_cases dest: Emplace_fits)
next
  case (Call_Insert_rvalue i k x)
  then show ?thesis using run inv
    by (intro on_object_fits[of w i "\<lambda>s. drop_result (Insert_rvalue T (at_offset (snd s) k) x s)" w' e])
       (auto simp: Insert_rvalue_def dest!: drop_result_cases dest: Emplace_fits)
next
  case (Call_Erase i k)
  then show ?thesis using run inv
    by (intro on_object_fits[of w i "\<lambda>s. drop_result (Erase T (at_offset (snd s) k) s)" w' e])
       (auto dest!: drop_result_cases dest: Erase_fits)
next
  case (Call_Swap i j)
  then show ?thesis using run inv
    by (intro on_objects_fits[of w i j "\<lambda>d. Vector_Swap" w' e]) (auto dest: Vector_Swap_fits)
next
  case (Call_Reserve i n)
  then show ?thesis using run inv
    by (intro on_object_fits[of w i "Reserve T n" w' e]) (auto dest: Reserve_fits)
qed

text \<open>C2. In every state a program reaches from no objects by calls of the public
  interface (the constructors, both assignments, \<^verbatim>\<open>Resize\<close>, \<^verbatim>\<open>PushBack\<close>, \<^verbatim>\<open>PopBack\<close>,
  \<^verbatim>\<open>EmplaceBack\<close>, \<^verbatim>\<open>Emplace\<close>, \<^verbatim>\<open>Insert\<close>, \<^verbatim>\<open>Erase\<close>, \<^verbatim>\<open>Swap\<close>, \<^verbatim>\<open>Reserve\<close>) that
  return or throw, every vector has \<open>size \<le> capacity\<close>. A call whose behaviour is
  undefined (a violated precondition) reaches no state.\<close>

theorem size_le_capacity_invariant:
  assumes "reachable T w" "v \<in> set (objects w)"
  shows "m_size v \<le> m_capacity (m_data v)"
proof -
  from assms(1) have "\<forall>v\<in>set (objects w). fits v"
  proof (induction rule: reachable.induct)
    case (start m)
    then show ?case by simp
  next
    case (returns w c w')
    then show ?case using exec_fits[of T c w w'] by blast
  next
    case (throws w c e w')
    then show ?case using exec_fits[of T c w w' e] by blast
  qed
  with assms(2) show ?thesis by (simp add: fits_def)
qed

section \<open>Concrete states; move and copy assignment\<close>

lemma run_reachable:
  "reachable T w \<Longrightarrow> run T cs w = Normal w' \<Longrightarrow> reachable T w'"
proof (induction cs arbitrary: w)
  case Nil
  then show ?case by simp
next
  case (Cons c cs)
  then show ?case
    by (cases "exec T c w") (auto intro: reachable.returns)
qed

lemma int_type_simps [simp]:
  "nothrow_move_constructible int_type" "copy_constructible int_type"
  "value_init int_type = Some 0" "\<not> copy_throws int_type x" "\<not> move_throws int_type x"
  "\<not> copy_assign_throws int_type x" "\<not> move_assign_throws int_type x" "moved_from int_type x = x"
  "\<not> move_fails int_type x" "\<not> transfer_throws int_type x" "sizeof_elem int_type = 4"
  by (simp_all add: int_type_def move_fails_def transfer_throws_def)

lemma run_two_vectors:
  "run int_type [Construct_default, Call_Reserve 0 2, Call_PushBack 0 1, Call_PushBack 0 2,
     Construct_default, Call_PushBack 1 3] (no_objects 19) = Normal two_vectors"
  by code_simp

lemma reachable_two_vectors: "reachable int_type two_vectors"
  by (rule run_reachable[OF _ run_two_vectors]) (simp add: no_objects_def reachable.start)

text \<open>C1 (the code does not do this). Move assignment takes the source's address, capacity
  and size and resets the source; it releases nothing and destroys nothing. With
  \<open>a = [1, 2]\<close> in region 1 and \<open>b = [3]\<close> in region 2, after \<^verbatim>\<open>a = std::move(b)\<close> the heap
  is the heap before the call: region 1 is still allocated and still holds the live
  objects 1 and 2, and no object has its address any more. The operator of
  \<^verbatim>\<open>RawMemory\<close> alone behaves the same way.\<close>

theorem move_assignment_leaks:
  "exec int_type (Assign_move 0 1) two_vectors =
     Normal \<lparr>heap = heap two_vectors,
             objects = [\<lparr>m_size = 1, m_data = \<lparr>m_buffer = 2, m_capacity = 1\<rparr>\<rparr>,
                        \<lparr>m_size = 0, m_data = \<lparr>m_buffer = nullptr, m_capacity = 0\<rparr>\<rparr>]\<rparr> \<and>
   block_at (heap two_vectors) 1 = Some [Some 1, Some 2] \<and>
   RawMemory_move_assign True \<lparr>m_buffer = 1, m_capacity = 2\<rparr> \<lparr>m_buffer = 2, m_capacity = 1\<rparr> =
     (\<lparr>m_buffer = 2, m_capacity = 1\<rparr>, \<lparr>m_buffer = nullptr, m_capacity = 0\<rparr>)"
  by (simp add: two_vectors_def on_objects_def Vector_move_assign_def RawMemory_move_assign_def
      block_at_def nullptr_def)

theorem size_le_capacity_invariant_witness:
  "reachable int_type two_vectors \<and>
   \<lparr>m_size = 2, m_data = \<lparr>m_buffer = 1, m_capacity = 2\<rparr>\<rparr> \<in> set (objects two_vectors) \<and>
   m_size \<lparr>m_size = 2, m_data = \<lparr>m_buffer = 1, m_capacity = 2\<rparr>\<rparr>
     \<le> m_capacity (m_data \<lparr>m_size = 2, m_data = \<lparr>m_buffer = 1, m_capacity = 2\<rparr>\<rparr>)"
proof -
  have m: "\<lparr>m_size = 2, m_data = \<lparr>m_buffer = 1, m_capacity = 2\<rparr>\<rparr> \<in> set (objects two_vectors)"
    by (simp add: two_vectors_def)
  from size_le_capacity_invariant[OF reachable_two_vectors m] reachable_two_vectors m
  show ?thesis by blast
qed

theorem appends_from_empty_witness:
  "no_wrap int_type (3 * length [Push_copy 1, Push_move 2, Emplace_back (3::int)]) \<and>
   3 * length [Push_copy 1, Push_move 2, Emplace_back (3::int)] * sizeof_elem int_type
     \<le> avail \<lparr>blocks = [], avail = 36\<rparr> \<and>
   (\<exists>h' v'. appends int_type (take 3 [Push_copy 1, Push_move 2, Emplace_back 3])
        (\<lparr>blocks = [], avail = 36\<rparr>, Vector_default) = Normal (h', v') \<and>
      m_size v' = 3 \<and> elems h' v' = map appended (take 3 [Push_copy 1, Push_move 2, Emplace_back 3]) \<and>
      (\<exists>k. m_capacity (m_data v') = 2 ^ k \<and> 3 \<le> (2::nat) ^ k \<and> (2::nat) ^ k < 2 * 3))"
proof -
  let ?as = "[Push_copy 1, Push_move 2, Emplace_back (3::int)]"
  let ?h = "\<lparr>blocks = [], avail = 36\<rparr> :: int heap"
  have q: "\<forall>a\<in>set ?as. \<not> append_throws int_type a \<and> \<not> transfer_throws int_type (appended a)"
    by simp
  have w: "no_wrap int_type (3 * length ?as)" by (simp add: no_wrap_def)
  have m: "3 * length ?as * sizeof_elem int_type \<le> avail ?h" by simp
  from appends_from_empty[OF q w m, THEN conjunct1, THEN spec, of 3] w m
  show ?thesis by simp
qed

text \<open>C9. Copy assignment of a vector to itself returns with every object and the whole
  heap as they were: size, capacity and every element are unchanged.\<close>

theorem copy_self_assignment_noop:
  assumes "i < length (objects w)"
  shows "exec T (Assign_copy i i) w = Normal w"
  using assms by (simp add: on_object_def Vector_copy_assign_def)

theorem copy_self_assignment_noop_witness:
  "0 < length (objects two_vectors) \<and> exec int_type (Assign_copy 0 0) two_vectors = Normal two_vectors"
proof -
  have "0 < length (objects two_vectors)" by (simp add: two_vectors_def)
  with copy_self_assignment_noop[of 0 two_vectors int_type] show ?thesis by simp
qed

section \<open>Reserve\<close>

lemma Reserve_no_op:
  "n \<le> m_capacity (m_data v) \<Longrightarrow> Reserve T n (h, v) = Normal (h, v)"
  by (simp add: Reserve_def Capacity_def)

lemma Reserve_grow:
  assumes ok: "vector_ok h v" and gt: "m_capacity (m_data v) < n"
    and nw: "no_wrap T n" and mem: "n * sizeof_elem T \<le> avail h"
    and quiet: "\<forall>x\<in>set (elems h v). \<not> transfer_throws T x"
  shows "\<exists>h' d. Reserve T n (h, v) = Normal (h', v\<lparr>m_data := d\<rparr>) \<and> m_capacity d = n \<and>
           vector_ok h' (v\<lparr>m_data := d\<rparr>) \<and> elems h' (v\<lparr>m_data := d\<rparr>) = elems h v \<and>
           avail h' + n * sizeof_elem T = avail h + bytes_at h (m_buffer (m_data v)) \<and>
           bytes_at h' (m_buffer d) = n * sizeof_elem T"
proof -
  let ?p = "m_buffer (m_data v)"
  let ?k = "m_size v"
  let ?s = "sizeof_elem T"
  let ?np = "Suc (length (blocks h))"
  let ?d = "\<lparr>m_buffer = ?np, m_capacity = n\<rparr>"
  let ?v' = "v\<lparr>m_data := ?d\<rparr>"
  have n0: "n \<noteq> 0" using gt by simp
  from RawMemory_sized_ok[OF mem n0 no_wrapD[OF nw]]
  obtain h1 where h1: "RawMemory_sized T n h = Normal (?d, h1)" "avail h1 = avail h - n * ?s"
    "block_at h1 ?np = Some (replicate n None)"
    "\<forall>a. a \<noteq> ?np \<longrightarrow> block_at h1 a = block_at h a"
    "bytes_at h1 ?np = n * ?s"
    "\<forall>a. a \<noteq> ?np \<longrightarrow> bytes_at h1 a = bytes_at h a"
    by blast
  have ne: "?np \<noteq> ?p" using ok by (rule vector_ok_fresh)
  have same: "block_at h1 ?p = block_at h ?p" using h1(4) ne by simp
  have ok1: "vector_ok h1 v" using ok same by (rule vector_ok_frame)
  have el1: "elems h1 v = elems h v" using same by (rule elems_frame)
  have kn: "?k \<le> n" using vector_ok_size[OF ok] gt by simp
  have len: "?k \<le> length (replicate n (None :: 'a option))" using kn by simp
  have q1: "\<forall>x\<in>set (elems h1 v). \<not> transfer_throws T x" using quiet el1 by simp
  from relocate_ok[OF ok1 h1(3) ne len q1]
  obtain h3 h4 h5 where r:
    "transfer_n T (GetAddress (m_data v)) ?k (?np, 0) h1 = Normal h3"
    "destroy_n (GetAddress (m_data v)) ?k h3 = Some h4"
    "RawMemory_dtor (m_data v) h4 = Some h5"
    "avail h5 = avail h1 + bytes_at h1 ?p"
    "block_at h5 ?np = Some (map Some (elems h1 v) @ drop ?k (replicate n None))"
    "\<forall>a. a \<noteq> ?p \<longrightarrow> bytes_at h5 a = bytes_at h1 a"
    by blast
  have byp: "bytes_at h1 ?p = bytes_at h ?p"
    using h1(6) ne by simp
  have bynp: "bytes_at h5 ?np = n * ?s" using r(6) ne h1(5) by simp
  have gt': "\<not> n \<le> Capacity (m_data v)" using gt by (simp add: Capacity_def)
  have run: "Reserve T n (h, v) = Normal (h5, ?v')"
    using gt' h1(1) r(1,2,3)
    by (simp add: Reserve_def Let_def RawMemory_Swap_def GetAddress_def)
  let ?nb = "map Some (elems h v) @ replicate (n - ?k) None"
  have blk: "block_at h5 ?np = Some ?nb" using r(5) el1 by simp
  have le: "length (elems h v) = ?k" using ok by (rule length_elems)
  have ok': "vector_ok h5 ?v'"
  proof (rule vector_okI)
    show "block_at h5 (m_buffer (m_data ?v')) = Some ?nb" using blk by simp
    show "length ?nb = m_capacity (m_data ?v')" using le kn by simp
    show "m_size ?v' \<le> m_capacity (m_data ?v')" using kn by simp
    show "\<forall>j. j < m_size ?v' \<longrightarrow> ?nb ! j \<noteq> None"
      using le by (auto simp: nth_append)
  qed
  have "elems h5 ?v' = map the (take ?k ?nb)"
    using blk by (simp add: elems_def region_def)
  also have "\<dots> = elems h v"
    using le by (simp add: comp_def)
  finally have el: "elems h5 ?v' = elems h v" .
  have av: "avail h5 + n * ?s = avail h + bytes_at h ?p"
    using r(4) h1(2) mem byp by simp
  show ?thesis
    using run ok' el av bynp by (intro exI[of _ h5] exI[of _ ?d]) simp
qed

text \<open>Where the product does not wrap, \<^verbatim>\<open>Reserve\<close> does what its contract says. For a
  well-formed vector: \<^verbatim>\<open>Reserve(n)\<close> with \<open>n \<le> capacity\<close> returns with the heap and the
  vector as they were; with \<open>n > capacity\<close>, when \<open>n * sizeof(T)\<close> is a value of \<^verbatim>\<open>size_t\<close>,
  the allocator has that many bytes and the transfer of the elements does not throw, it
  returns with capacity exactly \<open>n\<close>, the same size and the same elements in the same
  order; and however the call ends, by return or by exception, the capacity afterwards
  is at least the capacity before.\<close>

lemma Reserve_without_wrap:
  assumes "vector_ok h v"
  shows "(n \<le> m_capacity (m_data v) \<longrightarrow> Reserve T n (h, v) = Normal (h, v)) \<and>
         (m_capacity (m_data v) < n \<and> no_wrap T n \<and> n * sizeof_elem T \<le> avail h \<and>
          (\<forall>x\<in>set (elems h v). \<not> transfer_throws T x) \<longrightarrow>
            (\<exists>h' v'. Reserve T n (h, v) = Normal (h', v') \<and> m_capacity (m_data v') = n \<and>
               m_size v' = m_size v \<and> elems h' v' = elems h v \<and> vector_ok h' v')) \<and>
         (\<forall>h' v' e. Reserve T n (h, v) = Normal (h', v') \<or> Reserve T n (h, v) = Raised e (h', v')
            \<longrightarrow> m_capacity (m_data v) \<le> m_capacity (m_data v'))"
proof (intro conjI impI allI)
  assume "n \<le> m_capacity (m_data v)"
  then show "Reserve T n (h, v) = Normal (h, v)" by (rule Reserve_no_op)
next
  assume a: "m_capacity (m_data v) < n \<and> no_wrap T n \<and> n * sizeof_elem T \<le> avail h \<and>
    (\<forall>x\<in>set (elems h v). \<not> transfer_throws T x)"
  from Reserve_grow[OF assms, of n T] a
  obtain h' d where r: "Reserve T n (h, v) = Normal (h', v\<lparr>m_data := d\<rparr>)" "m_capacity d = n"
    "vector_ok h' (v\<lparr>m_data := d\<rparr>)" "elems h' (v\<lparr>m_data := d\<rparr>) = elems h v"
    by blast
  then show "\<exists>h' v'. Reserve T n (h, v) = Normal (h', v') \<and> m_capacity (m_data v') = n \<and>
               m_size v' = m_size v \<and> elems h' v' = elems h v \<and> vector_ok h' v'"
    by (intro exI[of _ h'] exI[of _ "v\<lparr>m_data := d\<rparr>"]) simp
next
  fix h' v' e
  assume "Reserve T n (h, v) = Normal (h', v') \<or> Reserve T n (h, v) = Raised e (h', v')"
  then show "m_capacity (m_data v) \<le> m_capacity (m_data v')"
    by (auto dest: Reserve_Normal Reserve_Raised)
qed

lemma one_vector_ok: "vector_ok (fst one_vector) (snd one_vector)"
  by (simp add: one_vector_def vector_ok_def block_at_def nullptr_def numeral_3_eq_3)

lemma one_vector_elems: "elems (fst one_vector) (snd one_vector) = [1, 2, 4]"
  by (simp add: one_vector_def elems_def region_def block_at_def nullptr_def numeral_3_eq_3)

text \<open>C8 (the code does not do this for every \<open>n\<close>). \<^verbatim>\<open>Allocate\<close> multiplies \<open>n\<close> by
  \<^verbatim>\<open>sizeof(T)\<close> without a check, and \<^verbatim>\<open>Reserve\<close> passes its argument on. For \<^verbatim>\<open>Vector<int>\<close>
  and \<open>n = 2^62\<close> the product wraps to 0: \<^verbatim>\<open>operator new\<close> is asked for no byte and
  succeeds, and \<^verbatim>\<open>RawMemory\<close> records the capacity \<open>2^62\<close> for a region without a slot.
  On the vector \<open>[1, 2, 4]\<close> of capacity 4, \<^verbatim>\<open>Reserve(2^62)\<close> then moves the elements to
  addresses outside the fresh region: the call is undefined, where the claim has the
  elements unchanged under capacity \<open>2^62\<close> (and the specification an allocation failure
  that changes nothing). On an empty vector the call returns with capacity \<open>2^62\<close>
  over the empty region, and the next \<^verbatim>\<open>PushBack\<close> constructs outside it. A request the
  allocator can satisfy without a wrap is served as claimed: \<^verbatim>\<open>Reserve(5)\<close> on
  \<open>[1, 2, 4]\<close> returns with capacity 5 and the elements as they were.\<close>

theorem Reserve_size_wraps:
  "Allocate int_type (2 ^ 62) (fst one_vector) =
     Normal (2, \<lparr>blocks = [Some ([Some 1, Some 2, Some 4, None], 16), Some ([], 0)], avail = 20\<rparr>) \<and>
   Reserve int_type (2 ^ 62) one_vector = Undefined \<and>
   Reserve int_type (2 ^ 62) (\<lparr>blocks = [], avail = 20\<rparr>, Vector_default) =
     Normal (\<lparr>blocks = [Some ([], 0)], avail = 20\<rparr>,
             \<lparr>m_size = 0, m_data = \<lparr>m_buffer = 1, m_capacity = 2 ^ 62\<rparr>\<rparr>) \<and>
   PushBack int_type 5
     (\<lparr>blocks = [Some ([], 0)], avail = 20\<rparr>,
      \<lparr>m_size = 0, m_data = \<lparr>m_buffer = 1, m_capacity = 2 ^ 62\<rparr>\<rparr>) = Undefined \<and>
   Reserve int_type 5 one_vector =
     Normal (\<lparr>blocks = [None, Some ([Some 1, Some 2, Some 4, None, None], 20)], avail = 16\<rparr>,
             \<lparr>m_size = 3, m_data = \<lparr>m_buffer = 2, m_capacity = 5\<rparr>\<rparr>)"
proof -
  have wrap: "((2::nat) ^ 62 * 4) mod 2 ^ 64 = 0" by simp
  have big: "\<not> (2::nat) ^ 62 \<le> 4" "\<not> (2::nat) ^ 62 \<le> 0" "(2::nat) ^ 62 \<noteq> 0" "(0::nat) < 2 ^ 62"
    by simp_all
  have a: "Allocate int_type (2 ^ 62) (fst one_vector) =
     Normal (2, \<lparr>blocks = [Some ([Some 1, Some 2, Some 4, None], 16), Some ([], 0)], avail = 20\<rparr>)"
    using wrap big by (simp add: Allocate_def operator_new_def one_vector_def)
  have r1: "Reserve int_type (2 ^ 62) one_vector = Undefined"
    using wrap big
    by (simp add: Reserve_def one_vector_def Capacity_def RawMemory_sized_def Allocate_def
        operator_new_def transfer_n_def uninitialized_move_n_def GetAddress_def numeral_3_eq_3
        move_construct_def read_elem_def block_at_def nullptr_def ptr_add_def construct_at_def
        write_slot_def)
  have r2: "Reserve int_type (2 ^ 62) (\<lparr>blocks = [], avail = 20\<rparr>, Vector_default) =
     Normal (\<lparr>blocks = [Some ([], 0)], avail = 20\<rparr>,
             \<lparr>m_size = 0, m_data = \<lparr>m_buffer = 1, m_capacity = 2 ^ 62\<rparr>\<rparr>)"
    using wrap big
    by (simp add: Reserve_def Vector_default_def RawMemory_default_def Capacity_def
        RawMemory_sized_def Allocate_def operator_new_def GetAddress_def RawMemory_Swap_def
        RawMemory_dtor_def Deallocate_def operator_delete_def nullptr_def)
  have p: "PushBack int_type 5
     (\<lparr>blocks = [Some ([], 0)], avail = 20\<rparr>,
      \<lparr>m_size = 0, m_data = \<lparr>m_buffer = 1, m_capacity = 2 ^ 62\<rparr>\<rparr>) = Undefined"
    using big
    by (simp add: PushBack_def EmplaceBack_def Capacity_def RawMemory_plus_def construct_at_def
        write_slot_def block_at_def nullptr_def drop_result_def)
  have r3: "Reserve int_type 5 one_vector =
     Normal (\<lparr>blocks = [None, Some ([Some 1, Some 2, Some 4, None, None], 20)], avail = 16\<rparr>,
             \<lparr>m_size = 3, m_data = \<lparr>m_buffer = 2, m_capacity = 5\<rparr>\<rparr>)"
    by code_simp
  from a r1 r2 p r3 show ?thesis by simp
qed

section \<open>Failure of an append to a full vector\<close>

lemma uninitialized_copy_loop_throws:
  "block_at h src = Some bs \<Longrightarrow> block_at h dst = Some bd \<Longrightarrow> src \<noteq> dst \<Longrightarrow>
   si + k + n \<le> length bs \<Longrightarrow> di + k + n \<le> length bd \<Longrightarrow>
   \<forall>j. si + k \<le> j \<and> j < si + k + n \<longrightarrow> bs ! j \<noteq> None \<Longrightarrow>
   \<forall>j. di \<le> j \<and> j < di + k \<longrightarrow> bd ! j \<noteq> None \<Longrightarrow>
   \<exists>j. si + k \<le> j \<and> j < si + k + n \<and> copy_throws T (the (bs ! j)) \<Longrightarrow>
   \<exists>h' bd'. uninitialized_copy_loop T (src, si) (dst, di) k n h = Raised Elem_exn h' \<and>
     avail h' = avail h \<and> block_at h' dst = Some bd' \<and> length bd' = length bd \<and>
     (\<forall>a. a \<noteq> dst \<longrightarrow> block_at h' a = block_at h a)"
proof (induction n arbitrary: k bd h)
  case 0
  from 0(8) obtain j where "si + k \<le> j" "j < si + k + 0" by blast
  then show ?case by simp
next
  case (Suc n)
  have sk: "si + k < length bs" and dk: "di + k < length bd"
    using Suc.prems(4,5) by simp_all
  from Suc.prems(6) sk obtain x where x: "bs ! (si + k) = Some x"
    by (metis le_refl less_add_Suc1 add_Suc_right not_Some_eq)
  have rd: "read_elem h (src, si + k) = Some x"
    using Suc.prems(1) sk x by (simp add: read_elem_block)
  show ?case
  proof (cases "copy_throws T x")
    case True
    have l: "di + k \<le> length bd" using dk by simp
    from destroy_n_obs[OF Suc.prems(2) l Suc.prems(7)]
    obtain h' where h': "destroy_n (dst, di) k h = Some h'" "avail h' = avail h"
      "block_at h' dst = Some (take di bd @ replicate k None @ drop (di + k) bd)"
      "\<forall>a. a \<noteq> dst \<longrightarrow> block_at h' a = block_at h a"
      by blast
    have "uninitialized_copy_loop T (src, si) (dst, di) k (Suc n) h = Raised Elem_exn h'"
      using rd True h'(1) by (simp add: ptr_add_def)
    moreover have "length (take di bd @ replicate k None @ drop (di + k) bd) = length bd"
      using l by simp
    ultimately show ?thesis using h'(2,3,4) by blast
  next
    case False
    let ?bd1 = "bd[di + k := Some x]"
    from construct_at_obs[OF Suc.prems(2) dk]
    obtain h1 where h1: "construct_at h (dst, di + k) x = Some h1" "avail h1 = avail h"
      "block_at h1 dst = Some ?bd1" "\<forall>a. a \<noteq> dst \<longrightarrow> block_at h1 a = block_at h a"
      by blast
    have s1: "block_at h1 src = Some bs" using h1(4) Suc.prems(1,3) by simp
    have l1: "si + Suc k + n \<le> length bs" "di + Suc k + n \<le> length ?bd1"
      using Suc.prems(4,5) by simp_all
    have r1: "\<forall>j. si + Suc k \<le> j \<and> j < si + Suc k + n \<longrightarrow> bs ! j \<noteq> None"
      using Suc.prems(6) by simp
    have d1: "\<forall>j. di \<le> j \<and> j < di + Suc k \<longrightarrow> ?bd1 ! j \<noteq> None"
      using Suc.prems(7) dk by (auto simp: nth_list_update)
    from Suc.prems(8) obtain j where j: "si + k \<le> j" "j < si + k + Suc n" "copy_throws T (the (bs ! j))"
      by blast
    have "j \<noteq> si + k" using j(3) x False by auto
    then have t1: "\<exists>j. si + Suc k \<le> j \<and> j < si + Suc k + n \<and> copy_throws T (the (bs ! j))"
      using j by (intro exI[of _ j]) simp
    from Suc.IH[OF s1 h1(3) Suc.prems(3) l1 r1 d1 t1]
    obtain h' bd' where r: "uninitialized_copy_loop T (src, si) (dst, di) (Suc k) n h1 = Raised Elem_exn h'"
      "avail h' = avail h1" "block_at h' dst = Some bd'" "length bd' = length ?bd1"
      "\<forall>a. a \<noteq> dst \<longrightarrow> block_at h' a = block_at h1 a"
      by blast
    have "uninitialized_copy_loop T (src, si) (dst, di) k (Suc n) h = Raised Elem_exn h'"
      using rd False h1(1) r(1) by (simp add: ptr_add_def)
    moreover have "\<forall>a. a \<noteq> dst \<longrightarrow> block_at h' a = block_at h a" using r(5) h1(4) by simp
    ultimately show ?thesis using r(2,3,4) h1(2) by (intro exI[of _ h'] exI[of _ bd']) simp
  qed
qed

lemma RawMemory_sized_Bad_alloc:
  "avail h < n * sizeof_elem T \<Longrightarrow> n \<noteq> 0 \<Longrightarrow> n * sizeof_elem T < 2 ^ 64 \<Longrightarrow>
   RawMemory_sized T n h = Raised Bad_alloc h"
  by (simp add: RawMemory_sized_def Allocate_def operator_new_def)

lemma same_blocksI:
  assumes "\<forall>a. a \<noteq> p \<longrightarrow> block_at h' a = block_at h a" "block_at h' p = None" "block_at h p = None"
  shows "\<forall>a. block_at h' a = block_at h a"
  using assms by metis

lemma EmplaceBack_alloc_fails:
  assumes ok: "vector_ok h v" and full: "\<not> m_size v < m_capacity (m_data v)"
    and nw: "no_wrap T (max 1 (2 * m_capacity (m_data v)))"
    and mem: "avail h < max 1 (2 * m_capacity (m_data v)) * sizeof_elem T"
  shows "EmplaceBack T arg (h, v) = Raised Bad_alloc (h, v)"
proof -
  let ?nc = "max 1 (2 * m_capacity (m_data v))"
  have full': "\<not> m_size v < Capacity (m_data v)" using full by (simp add: Capacity_def)
  have eq: "m_size v = m_capacity (m_data v)" using vector_ok_size[OF ok] full by simp
  have nc: "(if m_size v = 0 then 1 else Capacity (m_data v) * 2) = ?nc"
    using eq by (simp add: Capacity_def)
  have n0: "?nc \<noteq> 0" by simp
  have "RawMemory_sized T ?nc h = Raised Bad_alloc h"
    using mem n0 no_wrapD(2)[OF nw] by (rule RawMemory_sized_Bad_alloc)
  then show ?thesis
    using full' nc by (simp add: EmplaceBack_def Let_def)
qed

text \<open>Whatever the size of the request, \<^verbatim>\<open>RawMemory(capacity)\<close> either throws and changes
  nothing or hands out a fresh region and takes its bytes from the allocator.\<close>

lemma RawMemory_sized_cases:
  assumes "n \<noteq> 0"
  shows "RawMemory_sized T n h = Raised Bad_alloc h \<or>
         (\<exists>h1 b. RawMemory_sized T n h =
              Normal (\<lparr>m_buffer = Suc (length (blocks h)), m_capacity = n\<rparr>, h1) \<and>
            block_at h1 (Suc (length (blocks h))) = Some b \<and>
            avail h1 + bytes_at h1 (Suc (length (blocks h))) = avail h \<and>
            (\<forall>a. a \<noteq> Suc (length (blocks h)) \<longrightarrow> block_at h1 a = block_at h a))"
  using assms
  by (auto simp: RawMemory_sized_def Allocate_def operator_new_def block_at_def bytes_at_def
      nullptr_def nth_append)

lemma EmplaceBack_ctor_fails:
  assumes ok: "vector_ok h v" and full: "\<not> m_size v < m_capacity (m_data v)"
  shows "\<exists>e h'. EmplaceBack T None (h, v) = Raised e (h', v) \<and> avail h' = avail h \<and>
           (\<forall>a. block_at h' a = block_at h a)"
proof -
  let ?nc = "max 1 (2 * m_capacity (m_data v))"
  let ?np = "Suc (length (blocks h))"
  let ?d = "\<lparr>m_buffer = ?np, m_capacity = ?nc\<rparr>"
  have full': "\<not> m_size v < Capacity (m_data v)" using full by (simp add: Capacity_def)
  have eq: "m_size v = m_capacity (m_data v)" using vector_ok_size[OF ok] full by simp
  have nc: "(if m_size v = 0 then 1 else Capacity (m_data v) * 2) = ?nc"
    using eq by (simp add: Capacity_def)
  have n0: "?nc \<noteq> 0" by simp
  from RawMemory_sized_cases[OF n0, of T h]
  show ?thesis
  proof
    assume "RawMemory_sized T ?nc h = Raised Bad_alloc h"
    then have "EmplaceBack T None (h, v) = Raised Bad_alloc (h, v)"
      using full' nc by (simp add: EmplaceBack_def Let_def)
    then show ?thesis by blast
  next
    assume "\<exists>h1 b. RawMemory_sized T ?nc h = Normal (?d, h1) \<and> block_at h1 ?np = Some b \<and>
            avail h1 + bytes_at h1 ?np = avail h \<and>
            (\<forall>a. a \<noteq> ?np \<longrightarrow> block_at h1 a = block_at h a)"
    then obtain h1 b where h1: "RawMemory_sized T ?nc h = Normal (?d, h1)"
      "block_at h1 ?np = Some b" "avail h1 + bytes_at h1 ?np = avail h"
      "\<forall>a. a \<noteq> ?np \<longrightarrow> block_at h1 a = block_at h a"
      by blast
    have b1: "block_at h1 (m_buffer ?d) = Some b" using h1(2) by simp
    from RawMemory_dtor_ok[OF b1]
    obtain h2 where h2: "RawMemory_dtor ?d h1 = Some h2"
      "avail h2 = avail h1 + bytes_at h1 (m_buffer ?d)"
      "block_at h2 (m_buffer ?d) = None" "\<forall>a. a \<noteq> m_buffer ?d \<longrightarrow> block_at h2 a = block_at h1 a"
      by blast
    have lt: "m_size v \<le> ?nc" using eq by simp
    have run: "EmplaceBack T None (h, v) = Raised Elem_exn (h2, v)"
      using full' nc h1(1) h2(1) lt
      by (simp add: EmplaceBack_def Let_def RawMemory_plus_def)
    have av: "avail h2 = avail h" using h2(2) h1(3) by simp
    have fr: "\<forall>a. a \<noteq> ?np \<longrightarrow> block_at h2 a = block_at h a" using h2(4) h1(4) by simp
    have np: "block_at h2 ?np = None" using h2(3) by simp
    have "\<forall>a. block_at h2 a = block_at h a"
      using fr np by (intro same_blocksI[of ?np]) simp_all
    then show ?thesis using run av by blast
  qed
qed

lemma EmplaceBack_copy_fails:
  assumes ok: "vector_ok h v" and full: "\<not> m_size v < m_capacity (m_data v)"
    and nw: "no_wrap T (max 1 (2 * m_capacity (m_data v)))"
    and mem: "max 1 (2 * m_capacity (m_data v)) * sizeof_elem T \<le> avail h"
    and branch: "\<not> (nothrow_move_constructible T \<or> \<not> copy_constructible T)"
    and thr: "\<exists>y\<in>set (elems h v). copy_throws T y"
  shows "\<exists>h'. EmplaceBack T (Some x) (h, v) = Raised Elem_exn (h', v) \<and> avail h' = avail h \<and>
           (\<forall>a. block_at h' a = block_at h a)"
proof -
  let ?p = "m_buffer (m_data v)"
  let ?k = "m_size v"
  let ?nc = "max 1 (2 * m_capacity (m_data v))"
  let ?np = "Suc (length (blocks h))"
  let ?d = "\<lparr>m_buffer = ?np, m_capacity = ?nc\<rparr>"
  have full': "\<not> ?k < Capacity (m_data v)" using full by (simp add: Capacity_def)
  have eq: "?k = m_capacity (m_data v)" using vector_ok_size[OF ok] full by simp
  have nc: "(if m_size v = 0 then 1 else Capacity (m_data v) * 2) = ?nc"
    using eq by (simp add: Capacity_def)
  have n0: "?nc \<noteq> 0" by simp
  have nn: "?p \<noteq> nullptr"
  proof
    assume "?p = nullptr"
    then have "elems h v = []" using ok by (simp add: elems_null)
    with thr show False by simp
  qed
  from vector_ok_block[OF ok nn] obtain b where
    b: "block_at h ?p = Some b" "length b = m_capacity (m_data v)" "\<forall>j. j < ?k \<longrightarrow> b ! j \<noteq> None"
    by blast
  have el: "elems h v = map the (take ?k b)" using b(1) by (rule elems_block)
  from RawMemory_sized_ok[OF mem n0 no_wrapD[OF nw]]
  obtain h1 where h1: "RawMemory_sized T ?nc h = Normal (?d, h1)"
    "avail h1 = avail h - ?nc * sizeof_elem T"
    "block_at h1 ?np = Some (replicate ?nc None)"
    "\<forall>a. a \<noteq> ?np \<longrightarrow> block_at h1 a = block_at h a"
    "bytes_at h1 ?np = ?nc * sizeof_elem T"
    by blast
  have ne: "?np \<noteq> ?p" using ok by (rule vector_ok_fresh)
  have lt: "?k < ?nc" using eq by simp
  have lt': "?k < length (replicate ?nc (None :: 'a option))" using lt by simp
  let ?nb = "(replicate ?nc None)[?k := Some x]"
  from construct_at_obs[OF h1(3) lt']
  obtain h2 where h2: "construct_at h1 (?np, ?k) x = Some h2" "avail h2 = avail h1"
    "block_at h2 ?np = Some ?nb" "\<forall>a. a \<noteq> ?np \<longrightarrow> block_at h2 a = block_at h1 a"
    by blast
  have src: "block_at h2 ?p = Some b" using h2(4) h1(4) ne b(1) by simp
  have l1: "0 + 0 + ?k \<le> length b" using eq b(2) by simp
  have l2: "0 + 0 + ?k \<le> length ?nb" using lt by simp
  have live: "\<forall>j. 0 + 0 \<le> j \<and> j < 0 + 0 + ?k \<longrightarrow> b ! j \<noteq> None" using b(3) by simp
  have pre: "\<forall>j. 0 \<le> j \<and> j < 0 + 0 \<longrightarrow> ?nb ! j \<noteq> None" by simp
  from thr obtain y where y: "y \<in> set (elems h v)" "copy_throws T y" by blast
  from y(1) obtain j where j: "j < ?k" "the (b ! j) = y"
    unfolding el using eq b(2) by (auto simp: in_set_conv_nth)
  have ex: "\<exists>j. 0 + 0 \<le> j \<and> j < 0 + 0 + ?k \<and> copy_throws T (the (b ! j))"
    using j y(2) by (intro exI[of _ j]) simp
  from uninitialized_copy_loop_throws[OF src h2(3) ne[symmetric] l1 l2 live pre ex]
  obtain h3 bd' where h3: "uninitialized_copy_loop T (?p, 0) (?np, 0) 0 ?k h2 = Raised Elem_exn h3"
    "avail h3 = avail h2" "block_at h3 ?np = Some bd'" "length bd' = length ?nb"
    "\<forall>a. a \<noteq> ?np \<longrightarrow> block_at h3 a = block_at h2 a"
    by blast
  have tr: "transfer_n T (GetAddress (m_data v)) ?k (GetAddress ?d) h2 = Raised Elem_exn h3"
    using branch h3(1) by (simp add: transfer_n_def uninitialized_copy_n_def GetAddress_def)
  have b3: "block_at h3 (m_buffer ?d) = Some bd'" using h3(3) by simp
  from RawMemory_dtor_ok[OF b3]
  obtain h4 where h4: "RawMemory_dtor ?d h3 = Some h4"
    "avail h4 = avail h3 + bytes_at h3 (m_buffer ?d)"
    "block_at h4 (m_buffer ?d) = None" "\<forall>a. a \<noteq> m_buffer ?d \<longrightarrow> block_at h4 a = block_at h3 a"
    by blast
  have "bytes_at h3 = bytes_at h2"
    using uninitialized_copy_loop_bytes[of T "(?p, 0)" "(?np, 0)" 0 ?k h2 h3 Elem_exn] h3(1)
    by simp
  then have by3: "bytes_at h3 (m_buffer ?d) = ?nc * sizeof_elem T"
    using construct_at_bytes[OF h2(1)] h1(5) by simp
  have run: "EmplaceBack T (Some x) (h, v) = Raised Elem_exn (h4, v)"
    using full' nc h1(1) lt h2(1) tr h4(1)
    by (simp add: EmplaceBack_def Let_def RawMemory_plus_def)
  have av: "avail h4 = avail h" using h4(2) h3(2) h2(2) h1(2) by3 mem by simp
  have fr: "\<forall>a. a \<noteq> ?np \<longrightarrow> block_at h4 a = block_at h a"
    using h4(4) h3(5) h2(4) h1(4) by simp
  have np: "block_at h4 ?np = None" using h4(3) by simp
  have "\<forall>a. block_at h4 a = block_at h a"
    using fr np by (intro same_blocksI[of ?np]) simp_all
  then show ?thesis using run av by blast
qed

lemma full_vector_ok: "vector_ok (fst full_vector) (snd full_vector)"
  by (simp add: full_vector_def vector_ok_def block_at_def nullptr_def numeral_2_eq_2)

lemma full_vector_elems: "elems (fst full_vector) (snd full_vector) = [7, 13]"
  by (simp add: full_vector_def elems_def region_def block_at_def nullptr_def numeral_2_eq_2)

lemma full_vector_no_wrap:
  "sizeof_elem T = 4 \<Longrightarrow> no_wrap T (max 1 (2 * m_capacity (m_data (snd full_vector))))"
  by (simp add: full_vector_def no_wrap_def)

text \<open>C4, as stated, fails. \<open>fragile\<close> is not copy constructible, so the transfer of a full
  vector goes by \<^verbatim>\<open>std::uninitialized_move_n\<close>, and its move constructor may throw: appending
  to the full vector \<open>[7, 13]\<close> moves 7 out, fails on 13, and leaves by an exception with
  the vector holding \<open>[0, 13]\<close>. A transfer can fail on the move branch, and then the
  original elements are not untouched.\<close>

theorem EmplaceBack_move_only_counterexample:
  "\<not> copy_constructible fragile \<and> \<not> nothrow_move_constructible fragile \<and>
   vector_ok (fst full_vector) (snd full_vector) \<and>
   no_wrap fragile (max 1 (2 * m_capacity (m_data (snd full_vector)))) \<and>
   m_size (snd full_vector) = m_capacity (m_data (snd full_vector)) \<and>
   elems (fst full_vector) (snd full_vector) = [7, 13] \<and>
   EmplaceBack fragile (Some 5) full_vector =
     Raised Elem_exn (\<lparr>blocks = [Some ([Some 0, Some 13], 8), None], avail = 20\<rparr>, snd full_vector) \<and>
   elems \<lparr>blocks = [Some ([Some 0, Some 13], 8), None], avail = 20\<rparr> (snd full_vector) = [0, 13]"
proof -
  have "EmplaceBack fragile (Some 5) full_vector =
     Raised Elem_exn (\<lparr>blocks = [Some ([Some 0, Some 13], 8), None], avail = 20\<rparr>, snd full_vector)"
    by code_simp
  moreover have "elems \<lparr>blocks = [Some ([Some 0, Some 13], 8), None], avail = 20\<rparr> (snd full_vector) = [0, 13]"
    by (simp add: full_vector_def elems_def region_def block_at_def nullptr_def numeral_2_eq_2)
  moreover have "\<not> copy_constructible fragile \<and> \<not> nothrow_move_constructible fragile"
    by (simp add: fragile_def)
  moreover have "m_size (snd full_vector) = m_capacity (m_data (snd full_vector))"
    by (simp add: full_vector_def)
  moreover have "no_wrap fragile (max 1 (2 * m_capacity (m_data (snd full_vector))))"
    by (rule full_vector_no_wrap) (simp add: fragile_def)
  ultimately show ?thesis using full_vector_ok full_vector_elems by simp
qed

text \<open>C4, amended. \<^verbatim>\<open>EmplaceBack\<close> on a well-formed full vector (size equal to capacity):
  when the construction of the new element throws, whatever the element type, the call
  leaves by an exception with the vector, the available memory and every region of the
  heap as they were before the call, so nothing was transferred before the new element
  was constructed. When the element type is nothrow move constructible or copy
  constructible (and the request for \<open>max 1 (2 capacity)\<close> objects does not wrap, as it
  does not for a region of less than \<open>2^63\<close> bytes), the call has
  defined behaviour whatever its argument, and every exception it leaves by (of the
  allocation, of the new element's construction, of the transfer, which then is a copy)
  leaves the vector, the available memory and every region as they were: the original
  region and its elements are untouched and the new region has been released.\<close>

theorem EmplaceBack_strong_guarantee:
  assumes ok: "vector_ok h v" and full: "m_size v = m_capacity (m_data v)"
  shows "(\<exists>e h'. EmplaceBack T None (h, v) = Raised e (h', v) \<and> avail h' = avail h \<and>
            (\<forall>a. block_at h' a = block_at h a)) \<and>
         ((nothrow_move_constructible T \<or> copy_constructible T) \<and>
          no_wrap T (max 1 (2 * m_capacity (m_data v))) \<longrightarrow>
            EmplaceBack T arg (h, v) \<noteq> Undefined \<and>
            (\<forall>e h' v'. EmplaceBack T arg (h, v) = Raised e (h', v') \<longrightarrow>
               v' = v \<and> avail h' = avail h \<and> (\<forall>a. block_at h' a = block_at h a)))"
proof -
  let ?nc = "max 1 (2 * m_capacity (m_data v)) * sizeof_elem T"
  have nf: "\<not> m_size v < m_capacity (m_data v)" using full by simp
  have none: "\<exists>e h'. EmplaceBack T None (h, v) = Raised e (h', v) \<and> avail h' = avail h \<and>
            (\<forall>a. block_at h' a = block_at h a)"
    using ok nf by (rule EmplaceBack_ctor_fails)
  have rest: "EmplaceBack T arg (h, v) \<noteq> Undefined \<and>
            (\<forall>e h' v'. EmplaceBack T arg (h, v) = Raised e (h', v') \<longrightarrow>
               v' = v \<and> avail h' = avail h \<and> (\<forall>a. block_at h' a = block_at h a))"
    if T: "nothrow_move_constructible T \<or> copy_constructible T"
      and wm: "no_wrap T (max 1 (2 * m_capacity (m_data v)))"
  proof (cases "avail h < ?nc")
    case True
    from EmplaceBack_alloc_fails[OF ok nf wm True, of arg] show ?thesis by simp
  next
    case False
    then have mem: "?nc \<le> avail h" by (rule leI)
    show ?thesis
    proof (cases arg)
      case None
      from EmplaceBack_ctor_fails[OF ok nf, of T] None show ?thesis by auto
    next
      case (Some x)
      show ?thesis
      proof (cases "\<forall>y\<in>set (elems h v). \<not> transfer_throws T y")
        case True
        from EmplaceBack_grow[OF ok nf wm mem True, of x] Some show ?thesis by auto
      next
        case False
        then obtain y where y: "y \<in> set (elems h v)" "transfer_throws T y" by blast
        have nt: "\<not> nothrow_move_constructible T"
          using y(2) by (auto simp: transfer_throws_def move_fails_def split: if_splits)
        with T have cc: "copy_constructible T" by simp
        have branch: "\<not> (nothrow_move_constructible T \<or> \<not> copy_constructible T)"
          using nt cc by simp
        have "copy_throws T y" using y(2) branch by (simp add: transfer_throws_def)
        with y(1) have thr: "\<exists>y\<in>set (elems h v). copy_throws T y" by blast
        from EmplaceBack_copy_fails[OF ok nf wm mem branch thr, of x] Some show ?thesis by auto
      qed
    qed
  qed
  from none rest show ?thesis by blast
qed

theorem EmplaceBack_strong_guarantee_witness:
  "vector_ok (fst full_vector) (snd full_vector) \<and>
   m_size (snd full_vector) = m_capacity (m_data (snd full_vector)) \<and>
   no_wrap throwing_copy (max 1 (2 * m_capacity (m_data (snd full_vector)))) \<and>
   copy_constructible throwing_copy \<and>
   EmplaceBack throwing_copy (Some 5) full_vector =
     Raised Elem_exn (\<lparr>blocks = [Some ([Some 7, Some 13], 8), None], avail = 20\<rparr>, snd full_vector) \<and>
   avail \<lparr>blocks = [Some ([Some 7, Some 13], 8), None], avail = 20\<rparr> = avail (fst full_vector) \<and>
   (\<forall>a. block_at \<lparr>blocks = [Some ([Some 7, Some 13], 8), None], avail = 20\<rparr> a = block_at (fst full_vector) a) \<and>
   (\<exists>e h'. EmplaceBack throwing_copy None full_vector = Raised e (h', snd full_vector) \<and>
      avail h' = avail (fst full_vector) \<and> (\<forall>a. block_at h' a = block_at (fst full_vector) a))"
proof -
  let ?h' = "\<lparr>blocks = [Some ([Some 7, Some 13], 8), None], avail = 20\<rparr> :: int heap"
  have f: "m_size (snd full_vector) = m_capacity (m_data (snd full_vector))"
    by (simp add: full_vector_def)
  have c: "copy_constructible throwing_copy" by (simp add: throwing_copy_def)
  have w: "no_wrap throwing_copy (max 1 (2 * m_capacity (m_data (snd full_vector))))"
    by (rule full_vector_no_wrap) (simp add: throwing_copy_def)
  have r: "EmplaceBack throwing_copy (Some 5) (fst full_vector, snd full_vector) = Raised Elem_exn (?h', snd full_vector)"
    by code_simp
  from EmplaceBack_strong_guarantee[OF full_vector_ok f, of throwing_copy "Some 5"] c w r
  have "avail ?h' = avail (fst full_vector) \<and> (\<forall>a. block_at ?h' a = block_at (fst full_vector) a)"
    by blast
  moreover from EmplaceBack_strong_guarantee[OF full_vector_ok f, of throwing_copy "Some 5"]
  have "\<exists>e h'. EmplaceBack throwing_copy None full_vector = Raised e (h', snd full_vector) \<and>
      avail h' = avail (fst full_vector) \<and> (\<forall>a. block_at h' a = block_at (fst full_vector) a)"
    by simp
  ultimately show ?thesis using full_vector_ok f c w r by simp
qed

section \<open>Removal\<close>

lemma move_assign_elem_same_block:
  assumes "block_at h p = Some b" "i < length b" "j < length b" "b ! i = Some x" "b ! j \<noteq> None"
    "\<not> move_assign_throws T x"
  shows "\<exists>h'. move_assign_elem T (p, i) (p, j) h = Normal h' \<and> avail h' = avail h \<and>
           block_at h' p = Some (b[j := Some x, i := Some (moved_from T x)]) \<and>
           (\<forall>a. a \<noteq> p \<longrightarrow> block_at h' a = block_at h a)"
proof -
  let ?h1 = "set_block h p (Some (b[j := Some x]))"
  have rd: "read_elem h (p, i) = Some x" using assms by (simp add: read_elem_block)
  have rj: "read_elem h (p, j) = b ! j" using assms by (simp add: read_elem_block)
  have as: "assign_at h (p, j) x = Some ?h1"
    using assms rj by (auto simp: assign_at_def write_slot_block)
  have b1: "block_at ?h1 p = Some (b[j := Some x])"
    using assms(1) by (simp add: block_at_set_block)
  have w: "write_slot ?h1 (p, i) (Some (moved_from T x)) =
           Some (set_block ?h1 p (Some (b[j := Some x, i := Some (moved_from T x)])))"
    using b1 assms(2) by (simp add: write_slot_block)
  show ?thesis
    using rd as w assms(1,6) by (auto simp: move_assign_elem_def block_at_set_block)
qed

lemma std_move_loop_obs:
  "block_at h p = Some b \<Longrightarrow> d + n < length b \<Longrightarrow>
   \<forall>j. d \<le> j \<and> j \<le> d + n \<longrightarrow> b ! j \<noteq> None \<Longrightarrow>
   \<exists>h' b'. avail h' = avail h \<and> block_at h' p = Some b' \<and> length b' = length b \<and>
     (\<forall>j. j < length b \<and> b ! j \<noteq> None \<longrightarrow> b' ! j \<noteq> None) \<and>
     (\<forall>j. j < d \<longrightarrow> b' ! j = b ! j) \<and>
     (\<forall>a. a \<noteq> p \<longrightarrow> block_at h' a = block_at h a) \<and>
     ((std_move_loop T (p, Suc d) (p, d) n h = Normal h' \<and>
       (\<forall>j. d \<le> j \<and> j < d + n \<longrightarrow> b' ! j = b ! Suc j) \<and>
       (\<forall>j. d + n < j \<and> j < length b \<longrightarrow> b' ! j = b ! j)) \<or>
      (std_move_loop T (p, Suc d) (p, d) n h = Raised Elem_exn h' \<and>
       (\<exists>j. d < j \<and> j \<le> d + n \<and> move_assign_throws T (the (b ! j)))))"
proof (induction n arbitrary: d b h)
  case 0
  have sh: "\<forall>j. d \<le> j \<and> j < d + 0 \<longrightarrow> b ! j = b ! Suc j" by auto
  have run: "std_move_loop T (p, Suc d) (p, d) 0 h = Normal h" by simp
  show ?case
    using run sh 0(1) by (intro exI[of _ h] exI[of _ b]) blast
next
  case (Suc n)
  have d1: "Suc d < length b" and d0: "d < length b" using Suc.prems(2) by simp_all
  have "d \<le> Suc d \<and> Suc d \<le> d + Suc n" by simp
  with Suc.prems(3) have "b ! Suc d \<noteq> None" by blast
  then obtain x where x: "b ! Suc d = Some x" by auto
  have ld: "b ! d \<noteq> None" using Suc.prems(3) by simp
  show ?case
  proof (cases "move_assign_throws T x")
    case True
    have rd: "read_elem h (p, Suc d) = Some x"
      using Suc.prems(1) d1 x by (simp add: read_elem_block)
    have "std_move_loop T (p, Suc d) (p, d) (Suc n) h = Raised Elem_exn h"
      using rd True by (simp add: move_assign_elem_def)
    moreover have "\<exists>j. d < j \<and> j \<le> d + Suc n \<and> move_assign_throws T (the (b ! j))"
      using True x by (intro exI[of _ "Suc d"]) simp
    ultimately show ?thesis
      using Suc.prems(1) by blast
  next
    case False
    let ?b1 = "b[d := Some x, Suc d := Some (moved_from T x)]"
    from move_assign_elem_same_block[OF Suc.prems(1) d1 d0 x ld False]
    obtain h1 where h1: "move_assign_elem T (p, Suc d) (p, d) h = Normal h1" "avail h1 = avail h"
      "block_at h1 p = Some ?b1" "\<forall>a. a \<noteq> p \<longrightarrow> block_at h1 a = block_at h a"
      by blast
    have l1: "Suc d + n < length ?b1" using Suc.prems(2) by simp
    have live1: "\<forall>j. Suc d \<le> j \<and> j \<le> Suc d + n \<longrightarrow> ?b1 ! j \<noteq> None"
    proof (intro allI impI)
      fix j assume j: "Suc d \<le> j \<and> j \<le> Suc d + n"
      then have "d \<le> j \<and> j \<le> d + Suc n" by simp
      with Suc.prems(3) have "b ! j \<noteq> None" by blast
      then show "?b1 ! j \<noteq> None" using j Suc.prems(2) by (cases "j = Suc d") simp_all
    qed
    from Suc.IH[OF h1(3) l1 live1]
    obtain h' b' where r: "avail h' = avail h1" "block_at h' p = Some b'" "length b' = length ?b1"
      "\<forall>j. j < length ?b1 \<and> ?b1 ! j \<noteq> None \<longrightarrow> b' ! j \<noteq> None"
      "\<forall>j. j < Suc d \<longrightarrow> b' ! j = ?b1 ! j"
      "\<forall>a. a \<noteq> p \<longrightarrow> block_at h' a = block_at h1 a"
      "(std_move_loop T (p, Suc (Suc d)) (p, Suc d) n h1 = Normal h' \<and>
         (\<forall>j. Suc d \<le> j \<and> j < Suc d + n \<longrightarrow> b' ! j = ?b1 ! Suc j) \<and>
         (\<forall>j. Suc d + n < j \<and> j < length ?b1 \<longrightarrow> b' ! j = ?b1 ! j)) \<or>
       (std_move_loop T (p, Suc (Suc d)) (p, Suc d) n h1 = Raised Elem_exn h' \<and>
         (\<exists>j. Suc d < j \<and> j \<le> Suc d + n \<and> move_assign_throws T (the (?b1 ! j))))"
      by blast
    have step: "std_move_loop T (p, Suc d) (p, d) (Suc n) h = std_move_loop T (p, Suc (Suc d)) (p, Suc d) n h1"
      using h1(1) by (simp add: ptr_add_def)
    have live: "\<forall>j. j < length b \<and> b ! j \<noteq> None \<longrightarrow> b' ! j \<noteq> None"
    proof (intro allI impI)
      fix j assume j: "j < length b \<and> b ! j \<noteq> None"
      have "?b1 ! j \<noteq> None"
      proof (cases "j = Suc d")
        case True
        then show ?thesis using d1 by simp
      next
        case False
        then show ?thesis using j by (cases "j = d") simp_all
      qed
      moreover have "j < length ?b1" using j by simp
      ultimately show "b' ! j \<noteq> None" using r(4) by blast
    qed
    have low: "\<forall>j. j < d \<longrightarrow> b' ! j = b ! j"
    proof (intro allI impI)
      fix j assume j: "j < d"
      then have "b' ! j = ?b1 ! j" using r(5) by simp
      then show "b' ! j = b ! j" using j by simp
    qed
    have "b' ! d = ?b1 ! d" using r(5) by simp
    then have atd: "b' ! d = b ! Suc d"
      using x d0 by simp
    have fr: "\<forall>a. a \<noteq> p \<longrightarrow> block_at h' a = block_at h a" using r(6) h1(4) by simp
    from r(7) show ?thesis
    proof
      assume n: "std_move_loop T (p, Suc (Suc d)) (p, Suc d) n h1 = Normal h' \<and>
         (\<forall>j. Suc d \<le> j \<and> j < Suc d + n \<longrightarrow> b' ! j = ?b1 ! Suc j) \<and>
         (\<forall>j. Suc d + n < j \<and> j < length ?b1 \<longrightarrow> b' ! j = ?b1 ! j)"
      have sh: "\<forall>j. d \<le> j \<and> j < d + Suc n \<longrightarrow> b' ! j = b ! Suc j"
      proof (intro allI impI)
        fix j assume j: "d \<le> j \<and> j < d + Suc n"
        show "b' ! j = b ! Suc j"
        proof (cases "j = d")
          case True
          then show ?thesis using atd by simp
        next
          case False
          with j have "Suc d \<le> j \<and> j < Suc d + n" by simp
          with n have "b' ! j = ?b1 ! Suc j" by blast
          then show ?thesis using False j by simp
        qed
      qed
      have hi: "\<forall>j. d + Suc n < j \<and> j < length b \<longrightarrow> b' ! j = b ! j"
      proof (intro allI impI)
        fix j assume j: "d + Suc n < j \<and> j < length b"
        then have "Suc d + n < j \<and> j < length ?b1" by simp
        with n have "b' ! j = ?b1 ! j" by blast
        then show "b' ! j = b ! j" using j by simp
      qed
      have run: "std_move_loop T (p, Suc d) (p, d) (Suc n) h = Normal h'" using step n by simp
      have a: "avail h' = avail h" using r(1) h1(2) by simp
      have l: "length b' = length b" using r(3) by simp
      show ?thesis
        using run a r(2) l live low fr sh hi by blast
    next
      assume e: "std_move_loop T (p, Suc (Suc d)) (p, Suc d) n h1 = Raised Elem_exn h' \<and>
         (\<exists>j. Suc d < j \<and> j \<le> Suc d + n \<and> move_assign_throws T (the (?b1 ! j)))"
      then obtain j where j: "Suc d < j" "j \<le> Suc d + n" "move_assign_throws T (the (?b1 ! j))"
        by blast
      then have "move_assign_throws T (the (b ! j))" by simp
      with j have ex: "\<exists>j. d < j \<and> j \<le> d + Suc n \<and> move_assign_throws T (the (b ! j))"
        by (intro exI[of _ j]) simp
      have run: "std_move_loop T (p, Suc d) (p, d) (Suc n) h = Raised Elem_exn h'" using step e by simp
      have a: "avail h' = avail h" using r(1) h1(2) by simp
      have l: "length b' = length b" using r(3) by simp
      show ?thesis
        using run a r(2) l live low fr ex by blast
    qed
  qed
qed

lemma vector_ok_nonempty:
  assumes "vector_ok h v" "0 < m_size v"
  shows "m_buffer (m_data v) \<noteq> nullptr"
  using assms by (auto simp: vector_ok_def)

lemma at_offset_simp: "at_offset v i = (m_buffer (m_data v), i)"
  by (simp add: at_offset_def ptr_add_def Vector_begin_def GetAddress_def)

lemma destroy_at_obs:
  assumes "block_at h p = Some b" "i < length b" "b ! i \<noteq> None"
  shows "\<exists>h'. destroy_at h (p, i) = Some h' \<and> avail h' = avail h \<and>
           block_at h' p = Some (b[i := None]) \<and>
           (\<forall>a. a \<noteq> p \<longrightarrow> block_at h' a = block_at h a)"
  using assms by (auto simp: destroy_at_def read_elem_block write_slot_block block_at_set_block)

lemma PopBack_ok:
  assumes ok: "vector_ok h v" and pos: "0 < m_size v"
  shows "\<exists>h'. PopBack (h, v) = Some (h', v\<lparr>m_size := m_size v - 1\<rparr>) \<and> avail h' = avail h \<and>
           vector_ok h' (v\<lparr>m_size := m_size v - 1\<rparr>) \<and>
           elems h' (v\<lparr>m_size := m_size v - 1\<rparr>) = take (m_size v - 1) (elems h v)"
proof -
  let ?p = "m_buffer (m_data v)"
  let ?k = "m_size v"
  let ?v' = "v\<lparr>m_size := ?k - 1\<rparr>"
  have nn: "?p \<noteq> nullptr" using ok pos by (rule vector_ok_nonempty)
  from vector_ok_block[OF ok nn] obtain b where
    b: "block_at h ?p = Some b" "length b = m_capacity (m_data v)" "\<forall>j. j < ?k \<longrightarrow> b ! j \<noteq> None"
    by blast
  have kc: "?k \<le> length b" using vector_ok_size[OF ok] b(2) by simp
  have i: "?k - 1 < length b" using kc pos by simp
  have li: "b ! (?k - 1) \<noteq> None" using b(3) pos by simp
  from destroy_at_obs[OF b(1) i li]
  obtain h' where h': "destroy_at h (?p, ?k - 1) = Some h'" "avail h' = avail h"
    "block_at h' ?p = Some (b[?k - 1 := None])"
    by blast
  have run: "PopBack (h, v) = Some (h', ?v')"
    using pos h'(1) by (simp add: PopBack_def Let_def GetAddress_def ptr_add_def)
  have ok': "vector_ok h' ?v'"
  proof (rule vector_okI)
    show "block_at h' (m_buffer (m_data ?v')) = Some (b[?k - 1 := None])" using h'(3) by simp
    show "length (b[?k - 1 := None]) = m_capacity (m_data ?v')" using b(2) by simp
    show "m_size ?v' \<le> m_capacity (m_data ?v')" using vector_ok_size[OF ok] by simp
    show "\<forall>j. j < m_size ?v' \<longrightarrow> b[?k - 1 := None] ! j \<noteq> None"
      using b(3) by simp
  qed
  have "elems h' ?v' = map the (take (?k - 1) (b[?k - 1 := None]))"
    using h'(3) by (simp add: elems_def region_def)
  also have "\<dots> = map the (take (?k - 1) b)" by simp
  also have "\<dots> = take (?k - 1) (map the (take ?k b))"
    by (simp add: take_map min_def)
  also have "\<dots> = take (?k - 1) (elems h v)" using b(1) by (simp add: elems_block)
  finally show ?thesis using run h'(2) ok' by blast
qed

lemma Erase_obs:
  assumes ok: "vector_ok h v" and i: "i < m_size v"
  shows "\<exists>h'. avail h' = avail h \<and>
          ((Erase T (at_offset v i) (h, v) = Normal ((h', v\<lparr>m_size := m_size v - 1\<rparr>), at_offset v i) \<and>
            vector_ok h' (v\<lparr>m_size := m_size v - 1\<rparr>) \<and>
            elems h' (v\<lparr>m_size := m_size v - 1\<rparr>) = take i (elems h v) @ drop (Suc i) (elems h v)) \<or>
           (Erase T (at_offset v i) (h, v) = Raised Elem_exn (h', v) \<and>
            (\<exists>x\<in>set (drop (Suc i) (elems h v)). move_assign_throws T x)))"
proof -
  let ?p = "m_buffer (m_data v)"
  let ?k = "m_size v"
  let ?v' = "v\<lparr>m_size := ?k - 1\<rparr>"
  let ?n = "?k - Suc i"
  have pos: "0 < ?k" using i by simp
  have nn: "?p \<noteq> nullptr" using ok pos by (rule vector_ok_nonempty)
  from vector_ok_block[OF ok nn] obtain b where
    b: "block_at h ?p = Some b" "length b = m_capacity (m_data v)" "\<forall>j. j < ?k \<longrightarrow> b ! j \<noteq> None"
    by blast
  have kc: "?k \<le> length b" using vector_ok_size[OF ok] b(2) by simp
  have kc': "?k \<le> m_capacity (m_data v)" using vector_ok_size[OF ok] .
  have el: "elems h v = map the (take ?k b)" using b(1) by (rule elems_block)
  have l: "i + ?n < length b" using i kc by simp
  have live: "\<forall>j. i \<le> j \<and> j \<le> i + ?n \<longrightarrow> b ! j \<noteq> None"
  proof (intro allI impI)
    fix j assume "i \<le> j \<and> j \<le> i + ?n"
    then have "j < ?k" using i by auto
    then show "b ! j \<noteq> None" using b(3) by blast
  qed
  have in1: "i + ?n = ?k - 1" using i by simp
  from std_move_loop_obs[OF b(1) l live, of T]
  obtain h1 b' where r: "avail h1 = avail h" "block_at h1 ?p = Some b'" "length b' = length b"
    "\<forall>j. j < length b \<and> b ! j \<noteq> None \<longrightarrow> b' ! j \<noteq> None"
    "\<forall>j. j < i \<longrightarrow> b' ! j = b ! j"
    "(std_move_loop T (?p, Suc i) (?p, i) ?n h = Normal h1 \<and>
       (\<forall>j. i \<le> j \<and> j < i + ?n \<longrightarrow> b' ! j = b ! Suc j) \<and>
       (\<forall>j. i + ?n < j \<and> j < length b \<longrightarrow> b' ! j = b ! j)) \<or>
      (std_move_loop T (?p, Suc i) (?p, i) ?n h = Raised Elem_exn h1 \<and>
       (\<exists>j. i < j \<and> j \<le> i + ?n \<and> move_assign_throws T (the (b ! j))))"
    by blast
  have dist: "distance (Vector_begin v) (at_offset v i) = Some i"
    by (simp add: distance_def at_offset_simp Vector_begin_def GetAddress_def)
  have en: "Vector_end v = Some (?p, ?k)"
    using kc' by (simp add: Vector_end_def RawMemory_plus_def)
  have mv: "std_move T (ptr_add (Vector_begin v) (i + 1)) (?p, ?k) (ptr_add (Vector_begin v) i) h =
            std_move_loop T (?p, Suc i) (?p, i) ?n h"
    using i by (simp add: std_move_def ptr_add_def Vector_begin_def GetAddress_def)
  from r(6) show ?thesis
  proof
    assume n: "std_move_loop T (?p, Suc i) (?p, i) ?n h = Normal h1 \<and>
       (\<forall>j. i \<le> j \<and> j < i + ?n \<longrightarrow> b' ! j = b ! Suc j) \<and>
       (\<forall>j. i + ?n < j \<and> j < length b \<longrightarrow> b' ! j = b ! j)"
    have k1: "?k - 1 < length b'" using kc pos r(3) by simp
    have "b ! (?k - 1) \<noteq> None" using b(3) pos by simp
    then have lk: "b' ! (?k - 1) \<noteq> None" using r(4) k1 r(3) by simp
    from destroy_at_obs[OF r(2) k1 lk]
    obtain h2 where h2: "destroy_at h1 (?p, ?k - 1) = Some h2" "avail h2 = avail h1"
      "block_at h2 ?p = Some (b'[?k - 1 := None])"
      by blast
    have idx: "RawMemory_index (m_data v) (?k - 1) = Some (?p, ?k - 1)"
      using kc' pos by (simp add: RawMemory_index_def)
    have run: "Erase T (at_offset v i) (h, v) = Normal ((h2, ?v'), at_offset v i)"
      using dist en mv n pos idx h2(1)
      by (simp add: Erase_def Let_def at_offset_simp Vector_begin_def GetAddress_def ptr_add_def)
    have ok': "vector_ok h2 ?v'"
    proof (rule vector_okI)
      show "block_at h2 (m_buffer (m_data ?v')) = Some (b'[?k - 1 := None])" using h2(3) by simp
      show "length (b'[?k - 1 := None]) = m_capacity (m_data ?v')" using b(2) r(3) by simp
      show "m_size ?v' \<le> m_capacity (m_data ?v')" using kc' by simp
      show "\<forall>j. j < m_size ?v' \<longrightarrow> b'[?k - 1 := None] ! j \<noteq> None"
      proof (intro allI impI)
        fix j assume j: "j < m_size ?v'"
        then have "j < length b \<and> b ! j \<noteq> None" using b(3) kc by simp
        then have "b' ! j \<noteq> None" using r(4) by blast
        then show "b'[?k - 1 := None] ! j \<noteq> None" using j by simp
      qed
    qed
    have "elems h2 ?v' = map the (take (?k - 1) (b'[?k - 1 := None]))"
      using h2(3) by (simp add: elems_def region_def)
    also have "\<dots> = map the (take (?k - 1) b')" by simp
    also have "\<dots> = take i (elems h v) @ drop (Suc i) (elems h v)"
    proof (rule nth_equalityI)
      show "length (map the (take (?k - 1) b')) = length (take i (elems h v) @ drop (Suc i) (elems h v))"
        unfolding el using kc i r(3) by simp
    next
      fix j assume "j < length (map the (take (?k - 1) b'))"
      then have j: "j < ?k - 1" by simp
      have lhs: "map the (take (?k - 1) b') ! j = the (b' ! j)" using j kc r(3) by simp
      show "map the (take (?k - 1) b') ! j = (take i (elems h v) @ drop (Suc i) (elems h v)) ! j"
      proof (cases "j < i")
        case True
        then have "(take i (elems h v) @ drop (Suc i) (elems h v)) ! j = the (b ! j)"
          unfolding el using i kc by (simp add: nth_append)
        then show ?thesis using lhs r(5) True by simp
      next
        case False
        then have "i \<le> j \<and> j < i + ?n" using j i by simp
        with n have bj: "b' ! j = b ! Suc j" by blast
        have "(take i (elems h v) @ drop (Suc i) (elems h v)) ! j = the (b ! Suc j)"
          unfolding el using False i j kc by (simp add: nth_append)
        then show ?thesis using lhs bj by simp
      qed
    qed
    finally have el': "elems h2 ?v' = take i (elems h v) @ drop (Suc i) (elems h v)" .
    have "avail h2 = avail h" using h2(2) r(1) by simp
    then show ?thesis using run ok' el' by blast
  next
    assume e: "std_move_loop T (?p, Suc i) (?p, i) ?n h = Raised Elem_exn h1 \<and>
       (\<exists>j. i < j \<and> j \<le> i + ?n \<and> move_assign_throws T (the (b ! j)))"
    then obtain j where j: "i < j" "j \<le> i + ?n" "move_assign_throws T (the (b ! j))" by blast
    have run: "Erase T (at_offset v i) (h, v) = Raised Elem_exn (h1, v)"
      using dist en mv e by (simp add: Erase_def Let_def)
    have jk: "j < ?k" using j(2) i by simp
    have "drop (Suc i) (elems h v) ! (j - Suc i) = the (b ! j)"
      unfolding el using j(1) jk kc by simp
    moreover have "j - Suc i < length (drop (Suc i) (elems h v))"
      unfolding el using j(1) jk kc by simp
    ultimately have "the (b ! j) \<in> set (drop (Suc i) (elems h v))"
      by (metis nth_mem)
    with j(3) have "\<exists>x\<in>set (drop (Suc i) (elems h v)). move_assign_throws T x" by blast
    then show ?thesis using run r(1) by blast
  qed
qed

text \<open>C6. For a well-formed vector of size \<open>k\<close> and an offset \<open>i < k\<close>, where move-assigning
  the elements after \<open>i\<close> does not throw: \<^verbatim>\<open>Erase\<close> at offset \<open>i\<close> returns the position at
  offset \<open>i\<close>, the size is \<open>k - 1\<close>, the elements before \<open>i\<close> are unchanged, and every later
  element has moved one place to the left, so the element at \<open>i\<close> is gone.\<close>

theorem Erase_spec:
  assumes ok: "vector_ok h v" and i: "i < m_size v"
    and quiet: "\<forall>x\<in>set (drop (Suc i) (elems h v)). \<not> move_assign_throws T x"
  shows "\<exists>h' v'. Erase T (at_offset v i) (h, v) = Normal ((h', v'), at_offset v' i) \<and>
           vector_ok h' v' \<and> m_size v' = m_size v - 1 \<and> length (elems h' v') = m_size v - 1 \<and>
           elems h' v' = take i (elems h v) @ drop (Suc i) (elems h v) \<and>
           (\<forall>j. j < i \<longrightarrow> elems h' v' ! j = elems h v ! j) \<and>
           (\<forall>j. i \<le> j \<and> j < m_size v - 1 \<longrightarrow> elems h' v' ! j = elems h v ! Suc j)"
proof -
  let ?v' = "v\<lparr>m_size := m_size v - 1\<rparr>"
  from Erase_obs[OF ok i, of T] quiet
  obtain h' where r: "Erase T (at_offset v i) (h, v) = Normal ((h', ?v'), at_offset v i)"
    "vector_ok h' ?v'" "elems h' ?v' = take i (elems h v) @ drop (Suc i) (elems h v)"
    by blast
  have le: "length (elems h v) = m_size v" using ok by (rule length_elems)
  have at: "at_offset ?v' i = at_offset v i" by (simp add: at_offset_simp)
  have len: "length (elems h' ?v') = m_size v - 1" using r(2) length_elems[OF r(2)] by simp
  have low: "\<forall>j. j < i \<longrightarrow> elems h' ?v' ! j = elems h v ! j"
    unfolding r(3) using i le by (simp add: nth_append)
  have high: "\<forall>j. i \<le> j \<and> j < m_size v - 1 \<longrightarrow> elems h' ?v' ! j = elems h v ! Suc j"
  proof (intro allI impI)
    fix j assume j: "i \<le> j \<and> j < m_size v - 1"
    then have a: "\<not> j < i" "Suc i + (j - i) = Suc j" "Suc j \<le> length (elems h v)"
      using le by auto
    have "(take i (elems h v) @ drop (Suc i) (elems h v)) ! j = drop (Suc i) (elems h v) ! (j - i)"
      using a(1) i le by (simp add: nth_append)
    also have "\<dots> = elems h v ! Suc j" using a(2,3) by simp
    finally show "elems h' ?v' ! j = elems h v ! Suc j" unfolding r(3) .
  qed
  show ?thesis
    using r at len low high by (intro exI[of _ h'] exI[of _ ?v']) simp
qed

theorem Erase_spec_witness:
  "vector_ok (fst one_vector) (snd one_vector) \<and> 1 < m_size (snd one_vector) \<and>
   (\<exists>h' v'. Erase int_type (at_offset (snd one_vector) 1) one_vector = Normal ((h', v'), at_offset v' 1) \<and>
      m_size v' = 2 \<and> elems h' v' = [1, 4])"
proof -
  have i: "1 < m_size (snd one_vector)" by (simp add: one_vector_def)
  have q: "\<forall>x\<in>set (drop (Suc 1) (elems (fst one_vector) (snd one_vector))). \<not> move_assign_throws int_type x"
    by simp
  have s: "m_size (snd one_vector) - 1 = 2" by (simp add: one_vector_def)
  from Erase_spec[OF one_vector_ok i q]
  obtain h' v' where "Erase int_type (at_offset (snd one_vector) 1) (fst one_vector, snd one_vector) =
      Normal ((h', v'), at_offset v' 1)" "m_size v' = m_size (snd one_vector) - 1"
    "elems h' v' = take 1 (elems (fst one_vector) (snd one_vector)) @ drop (Suc 1) (elems (fst one_vector) (snd one_vector))"
    by blast
  then have "Erase int_type (at_offset (snd one_vector) 1) one_vector = Normal ((h', v'), at_offset v' 1) \<and>
      m_size v' = 2 \<and> elems h' v' = [1, 4]"
    unfolding s one_vector_elems by simp
  then show ?thesis using one_vector_ok i by blast
qed

text \<open>C10. For a well-formed vector and an offset \<open>i\<close> below its size (so the size is
  positive): \<^verbatim>\<open>PopBack\<close> returns with the same storage block (same address, same capacity),
  nothing allocated or released, the size one less and the first \<open>size - 1\<close> elements as
  they were; \<^verbatim>\<open>Erase\<close> at \<open>i\<close> has defined behaviour and, whether it returns or a move
  assignment throws, leaves the vector with the same storage block and the available
  memory as it was.\<close>

theorem removal_keeps_capacity:
  assumes ok: "vector_ok h v" and i: "i < m_size v"
  shows "(\<exists>h' v'. PopBack (h, v) = Some (h', v') \<and> m_data v' = m_data v \<and>
            m_capacity (m_data v') = m_capacity (m_data v) \<and> avail h' = avail h \<and>
            m_size v' = m_size v - 1 \<and> elems h' v' = take (m_size v - 1) (elems h v)) \<and>
         (\<exists>h' v'. ((\<exists>p. Erase T (at_offset v i) (h, v) = Normal ((h', v'), p)) \<or>
                    (\<exists>e. Erase T (at_offset v i) (h, v) = Raised e (h', v'))) \<and>
            m_data v' = m_data v \<and> m_capacity (m_data v') = m_capacity (m_data v) \<and>
            avail h' = avail h)"
proof
  have pos: "0 < m_size v" using i by simp
  from PopBack_ok[OF ok pos]
  obtain h' where "PopBack (h, v) = Some (h', v\<lparr>m_size := m_size v - 1\<rparr>)" "avail h' = avail h"
    "elems h' (v\<lparr>m_size := m_size v - 1\<rparr>) = take (m_size v - 1) (elems h v)"
    by blast
  then show "\<exists>h' v'. PopBack (h, v) = Some (h', v') \<and> m_data v' = m_data v \<and>
            m_capacity (m_data v') = m_capacity (m_data v) \<and> avail h' = avail h \<and>
            m_size v' = m_size v - 1 \<and> elems h' v' = take (m_size v - 1) (elems h v)"
    by (intro exI[of _ h'] exI[of _ "v\<lparr>m_size := m_size v - 1\<rparr>"]) simp
next
  from Erase_obs[OF ok i, of T]
  obtain h' where r: "avail h' = avail h"
    "Erase T (at_offset v i) (h, v) = Normal ((h', v\<lparr>m_size := m_size v - 1\<rparr>), at_offset v i) \<or>
     Erase T (at_offset v i) (h, v) = Raised Elem_exn (h', v)"
    by blast
  from r(2) show "\<exists>h' v'. ((\<exists>p. Erase T (at_offset v i) (h, v) = Normal ((h', v'), p)) \<or>
                    (\<exists>e. Erase T (at_offset v i) (h, v) = Raised e (h', v'))) \<and>
            m_data v' = m_data v \<and> m_capacity (m_data v') = m_capacity (m_data v) \<and>
            avail h' = avail h"
  proof
    assume "Erase T (at_offset v i) (h, v) = Normal ((h', v\<lparr>m_size := m_size v - 1\<rparr>), at_offset v i)"
    then show ?thesis using r(1) by (intro exI[of _ h'] exI[of _ "v\<lparr>m_size := m_size v - 1\<rparr>"]) auto
  next
    assume "Erase T (at_offset v i) (h, v) = Raised Elem_exn (h', v)"
    then show ?thesis using r(1) by (intro exI[of _ h'] exI[of _ v]) auto
  qed
qed

theorem removal_keeps_capacity_witness:
  "vector_ok (fst one_vector) (snd one_vector) \<and> 1 < m_size (snd one_vector) \<and>
   (\<exists>h' v'. PopBack one_vector = Some (h', v') \<and> m_capacity (m_data v') = 4 \<and> elems h' v' = [1, 2]) \<and>
   (\<exists>h' v'. ((\<exists>p. Erase int_type (at_offset (snd one_vector) 1) one_vector = Normal ((h', v'), p)) \<or>
              (\<exists>e. Erase int_type (at_offset (snd one_vector) 1) one_vector = Raised e (h', v'))) \<and>
      m_capacity (m_data v') = 4)"
proof -
  have i: "1 < m_size (snd one_vector)" by (simp add: one_vector_def)
  have c: "m_capacity (m_data (snd one_vector)) = 4" "m_size (snd one_vector) - 1 = 2"
    by (simp_all add: one_vector_def)
  note t = removal_keeps_capacity[OF one_vector_ok i, of int_type]
  from t obtain h' v' where p: "PopBack (fst one_vector, snd one_vector) = Some (h', v')"
    "m_capacity (m_data v') = m_capacity (m_data (snd one_vector))"
    "elems h' v' = take (m_size (snd one_vector) - 1) (elems (fst one_vector) (snd one_vector))"
    by blast
  have 1: "\<exists>h' v'. PopBack one_vector = Some (h', v') \<and> m_capacity (m_data v') = 4 \<and> elems h' v' = [1, 2]"
    using p unfolding c one_vector_elems by (intro exI[of _ h'] exI[of _ v']) (simp add: numeral_2_eq_2)
  from t obtain h2 v2 where e:
    "(\<exists>p. Erase int_type (at_offset (snd one_vector) 1) (fst one_vector, snd one_vector) = Normal ((h2, v2), p)) \<or>
     (\<exists>e. Erase int_type (at_offset (snd one_vector) 1) (fst one_vector, snd one_vector) = Raised e (h2, v2))"
    "m_capacity (m_data v2) = m_capacity (m_data (snd one_vector))"
    by blast
  have 2: "\<exists>h' v'. ((\<exists>p. Erase int_type (at_offset (snd one_vector) 1) one_vector = Normal ((h', v'), p)) \<or>
              (\<exists>e. Erase int_type (at_offset (snd one_vector) 1) one_vector = Raised e (h', v'))) \<and>
      m_capacity (m_data v') = 4"
    using e unfolding c by (intro exI[of _ h2] exI[of _ v2]) simp
  show ?thesis using one_vector_ok i 1 2 by blast
qed

section \<open>Insertion\<close>

lemma move_construct_same_block:
  assumes "block_at h p = Some b" "i < length b" "j < length b" "b ! i = Some x" "\<not> move_fails T x"
  shows "\<exists>h'. move_construct T (p, i) (p, j) h = Normal h' \<and> avail h' = avail h \<and>
           block_at h' p = Some (b[j := Some x, i := Some (moved_from T x)]) \<and>
           (\<forall>a. a \<noteq> p \<longrightarrow> block_at h' a = block_at h a)"
proof -
  let ?h1 = "set_block h p (Some (b[j := Some x]))"
  have rd: "read_elem h (p, i) = Some x" using assms by (simp add: read_elem_block)
  have cn: "construct_at h (p, j) x = Some ?h1"
    using assms by (simp add: construct_at_def write_slot_block)
  have b1: "block_at ?h1 p = Some (b[j := Some x])"
    using assms(1) by (simp add: block_at_set_block)
  have w: "write_slot ?h1 (p, i) (Some (moved_from T x)) =
           Some (set_block ?h1 p (Some (b[j := Some x, i := Some (moved_from T x)])))"
    using b1 assms(2) by (simp add: write_slot_block)
  show ?thesis
    using rd cn w assms(1,5) by (auto simp: move_construct_def block_at_set_block)
qed

lemma std_move_backward_loop_obs:
  "block_at h p = Some b \<Longrightarrow> L < length b \<Longrightarrow> n \<le> L \<Longrightarrow>
   \<forall>j. L - n \<le> j \<and> j \<le> L \<longrightarrow> b ! j \<noteq> None \<Longrightarrow>
   \<forall>j. L - n \<le> j \<and> j < L \<longrightarrow> \<not> move_assign_throws T (the (b ! j)) \<Longrightarrow>
   \<exists>h' b'. std_move_backward_loop T (p, L) (p, Suc L) n h = Normal h' \<and> avail h' = avail h \<and>
     block_at h' p = Some b' \<and> length b' = length b \<and>
     (\<forall>j. L - n < j \<and> j \<le> L \<longrightarrow> b' ! j = b ! (j - 1)) \<and>
     b' ! (L - n) \<noteq> None \<and>
     (\<forall>j. j < L - n \<longrightarrow> b' ! j = b ! j) \<and>
     (\<forall>j. L < j \<and> j < length b \<longrightarrow> b' ! j = b ! j) \<and>
     (\<forall>a. a \<noteq> p \<longrightarrow> block_at h' a = block_at h a)"
proof (induction n arbitrary: L b h)
  case 0
  have run: "std_move_backward_loop T (p, L) (p, Suc L) 0 h = Normal h" by simp
  have a: "\<forall>j. L - 0 < j \<and> j \<le> L \<longrightarrow> b ! j = b ! (j - 1)" by auto
  have l: "b ! (L - 0) \<noteq> None" using 0(4) by simp
  show ?case using run a l 0(1) by (intro exI[of _ h] exI[of _ b]) blast
next
  case (Suc n)
  from Suc.prems(3) obtain M where M: "L = Suc M" by (cases L) auto
  have nM: "n \<le> M" using Suc.prems(3) M by simp
  have Ml: "M < length b" and Ll: "Suc M < length b" using Suc.prems(2) M by simp_all
  have lM: "b ! M \<noteq> None"
  proof -
    have "L - Suc n \<le> M \<and> M \<le> L" using M by simp
    with Suc.prems(4) show ?thesis by blast
  qed
  then obtain x where x: "b ! M = Some x" by auto
  have lL: "b ! Suc M \<noteq> None" using Suc.prems(4) M by simp
  have nt: "\<not> move_assign_throws T x"
  proof -
    have "L - Suc n \<le> M \<and> M < L" using M by simp
    with Suc.prems(5) have "\<not> move_assign_throws T (the (b ! M))" by blast
    then show ?thesis using x by simp
  qed
  let ?b1 = "b[Suc M := Some x, M := Some (moved_from T x)]"
  from move_assign_elem_same_block[OF Suc.prems(1) Ml Ll x lL nt]
  obtain h1 where h1: "move_assign_elem T (p, M) (p, Suc M) h = Normal h1" "avail h1 = avail h"
    "block_at h1 p = Some ?b1" "\<forall>a. a \<noteq> p \<longrightarrow> block_at h1 a = block_at h a"
    by blast
  have l1: "M < length ?b1" using Ml by simp
  have live1: "\<forall>j. M - n \<le> j \<and> j \<le> M \<longrightarrow> ?b1 ! j \<noteq> None"
  proof (intro allI impI)
    fix j assume j: "M - n \<le> j \<and> j \<le> M"
    show "?b1 ! j \<noteq> None"
    proof (cases "j = M")
      case True
      then show ?thesis using Ml by simp
    next
      case False
      with j have "L - Suc n \<le> j \<and> j \<le> L" using M by auto
      with Suc.prems(4) have "b ! j \<noteq> None" by blast
      then show ?thesis using False j by simp
    qed
  qed
  have nt1: "\<forall>j. M - n \<le> j \<and> j < M \<longrightarrow> \<not> move_assign_throws T (the (?b1 ! j))"
  proof (intro allI impI)
    fix j assume j: "M - n \<le> j \<and> j < M"
    then have "L - Suc n \<le> j \<and> j < L" using M by auto
    with Suc.prems(5) have "\<not> move_assign_throws T (the (b ! j))" by blast
    then show "\<not> move_assign_throws T (the (?b1 ! j))" using j by simp
  qed
  from Suc.IH[OF h1(3) l1 nM live1 nt1]
  obtain h' b' where r: "std_move_backward_loop T (p, M) (p, Suc M) n h1 = Normal h'"
    "avail h' = avail h1" "block_at h' p = Some b'" "length b' = length ?b1"
    "\<forall>j. M - n < j \<and> j \<le> M \<longrightarrow> b' ! j = ?b1 ! (j - 1)"
    "b' ! (M - n) \<noteq> None"
    "\<forall>j. j < M - n \<longrightarrow> b' ! j = ?b1 ! j"
    "\<forall>j. M < j \<and> j < length ?b1 \<longrightarrow> b' ! j = ?b1 ! j"
    "\<forall>a. a \<noteq> p \<longrightarrow> block_at h' a = block_at h1 a"
    by blast
  have run: "std_move_backward_loop T (p, L) (p, Suc L) (Suc n) h = Normal h'"
    using h1(1) r(1) M by simp
  have av: "avail h' = avail h" using r(2) h1(2) by simp
  have len: "length b' = length b" using r(4) by simp
  have sub: "L - Suc n = M - n" using M by simp
  have sh: "\<forall>j. L - Suc n < j \<and> j \<le> L \<longrightarrow> b' ! j = b ! (j - 1)"
  proof (intro allI impI)
    fix j assume j: "L - Suc n < j \<and> j \<le> L"
    show "b' ! j = b ! (j - 1)"
    proof (cases "j = L")
      case True
      have "M < Suc M \<and> Suc M < length ?b1" using Ll by simp
      with r(8) have "b' ! Suc M = ?b1 ! Suc M" by blast
      then show ?thesis using True M x Ll by simp
    next
      case False
      with j have jj: "M - n < j \<and> j \<le> M" using M by auto
      with r(5) have "b' ! j = ?b1 ! (j - 1)" by blast
      moreover have "j - 1 \<noteq> M" "j - 1 \<noteq> Suc M" using jj by auto
      ultimately show ?thesis by simp
    qed
  qed
  have lo: "\<forall>j. j < L - Suc n \<longrightarrow> b' ! j = b ! j"
  proof (intro allI impI)
    fix j assume j: "j < L - Suc n"
    then have "j < M - n" using sub by simp
    with r(7) have "b' ! j = ?b1 ! j" by blast
    moreover have "j \<noteq> M" "j \<noteq> Suc M" using j M by auto
    ultimately show "b' ! j = b ! j" by simp
  qed
  have hi: "\<forall>j. L < j \<and> j < length b \<longrightarrow> b' ! j = b ! j"
  proof (intro allI impI)
    fix j assume j: "L < j \<and> j < length b"
    then have "M < j \<and> j < length ?b1" using M by auto
    with r(8) have "b' ! j = ?b1 ! j" by blast
    moreover have "j \<noteq> M" "j \<noteq> Suc M" using j M by auto
    ultimately show "b' ! j = b ! j" by simp
  qed
  have lv: "b' ! (L - Suc n) \<noteq> None" using r(6) sub by simp
  have fr: "\<forall>a. a \<noteq> p \<longrightarrow> block_at h' a = block_at h a" using r(9) h1(4) by simp
  show ?case
    using run av r(3) len sh lv lo hi fr by blast
qed

lemma assign_at_obs:
  assumes "block_at h p = Some b" "i < length b" "b ! i \<noteq> None"
  shows "\<exists>h'. assign_at h (p, i) x = Some h' \<and> avail h' = avail h \<and>
           block_at h' p = Some (b[i := Some x]) \<and>
           (\<forall>a. a \<noteq> p \<longrightarrow> block_at h' a = block_at h a)"
  using assms by (auto simp: assign_at_def read_elem_block write_slot_block block_at_set_block)

lemma insert_nth_eq:
  assumes len: "length ys = Suc (length xs)" and i: "i \<le> length xs"
    and low: "\<forall>j. j < i \<longrightarrow> ys ! j = xs ! j" and at: "ys ! i = x"
    and high: "\<forall>j. i < j \<and> j \<le> length xs \<longrightarrow> ys ! j = xs ! (j - 1)"
  shows "ys = take i xs @ [x] @ drop i xs"
proof (rule nth_equalityI)
  show "length ys = length (take i xs @ [x] @ drop i xs)" using len i by simp
next
  fix j assume "j < length ys"
  then have j: "j \<le> length xs" using len by simp
  consider "j < i" | "j = i" | "i < j" by linarith
  then show "ys ! j = (take i xs @ [x] @ drop i xs) ! j"
  proof cases
    case 1
    then show ?thesis using low i by (simp add: nth_append)
  next
    case 2
    then show ?thesis using at i by (simp add: nth_append)
  next
    case 3
    then have a: "\<not> j < i" "j - i = Suc (j - Suc i)" "i + (j - Suc i) = j - 1" by auto
    have "(take i xs @ [x] @ drop i xs) ! j = (x # drop i xs) ! (j - i)"
      using a(1) i by (simp add: nth_append)
    also have "\<dots> = drop i xs ! (j - Suc i)" using a(2) by simp
    also have "\<dots> = xs ! (j - 1)" using a(3) i j 3 by simp
    finally show ?thesis using high 3 j by simp
  qed
qed

lemma EmplaceWithoutRealloc_ok:
  assumes ok: "vector_ok h v" and i: "i < m_size v" and room: "m_size v < m_capacity (m_data v)"
    and quiet: "\<forall>y\<in>set (elems h v). \<not> move_fails T y \<and> \<not> move_assign_throws T y"
    and qx: "\<not> move_assign_throws T x"
  shows "\<exists>h'. EmplaceWithoutRealloc T i (Some x) (h, v) = Normal (h', v) \<and> avail h' = avail h \<and>
           vector_ok h' (v\<lparr>m_size := m_size v + 1\<rparr>) \<and>
           elems h' (v\<lparr>m_size := m_size v + 1\<rparr>) = take i (elems h v) @ [x] @ drop i (elems h v)"
proof -
  let ?p = "m_buffer (m_data v)"
  let ?k = "m_size v"
  let ?v' = "v\<lparr>m_size := ?k + 1\<rparr>"
  have pos: "0 < ?k" using i by simp
  have nn: "?p \<noteq> nullptr" using ok pos by (rule vector_ok_nonempty)
  from vector_ok_block[OF ok nn] obtain b where
    b: "block_at h ?p = Some b" "length b = m_capacity (m_data v)" "\<forall>j. j < ?k \<longrightarrow> b ! j \<noteq> None"
    by blast
  have kl: "?k < length b" using room b(2) by simp
  have el: "elems h v = map the (take ?k b)" using b(1) by (rule elems_block)
  have le: "length (elems h v) = ?k" using ok by (rule length_elems)
  have mem: "\<And>j. j < ?k \<Longrightarrow> the (b ! j) \<in> set (elems h v)"
  proof -
    fix j assume j: "j < ?k"
    have "elems h v ! j = the (b ! j)" unfolding el using j kl by simp
    moreover have "j < length (elems h v)" using le j by simp
    ultimately show "the (b ! j) \<in> set (elems h v)" by (metis nth_mem)
  qed
  have k1: "?k - 1 < length b" using kl by simp
  have "b ! (?k - 1) \<noteq> None" using b(3) pos by simp
  then obtain xl where xl: "b ! (?k - 1) = Some xl" by auto
  have "the (b ! (?k - 1)) \<in> set (elems h v)" using mem pos by simp
  then have nf: "\<not> move_fails T xl" using quiet xl by auto
  let ?b1 = "b[?k := Some xl, ?k - 1 := Some (moved_from T xl)]"
  from move_construct_same_block[OF b(1) k1 kl xl nf]
  obtain h1 where h1: "move_construct T (?p, ?k - 1) (?p, ?k) h = Normal h1" "avail h1 = avail h"
    "block_at h1 ?p = Some ?b1" "\<forall>a. a \<noteq> ?p \<longrightarrow> block_at h1 a = block_at h a"
    by blast
  let ?L = "?k - 1"
  let ?n = "?k - 1 - i"
  have SL: "Suc ?L = ?k" using pos by simp
  have l1: "?L < length ?b1" using k1 by simp
  have nL: "?n \<le> ?L" by simp
  have Ln: "?L - ?n = i" using i by simp
  have live1: "\<forall>j. ?L - ?n \<le> j \<and> j \<le> ?L \<longrightarrow> ?b1 ! j \<noteq> None"
  proof (intro allI impI)
    fix j assume j: "?L - ?n \<le> j \<and> j \<le> ?L"
    show "?b1 ! j \<noteq> None"
    proof (cases "j = ?L")
      case True
      then show ?thesis using k1 by simp
    next
      case False
      with j have jk: "j < ?k" "j \<noteq> ?k" by auto
      then have "b ! j \<noteq> None" using b(3) by blast
      then show ?thesis using False jk by simp
    qed
  qed
  have nt1: "\<forall>j. ?L - ?n \<le> j \<and> j < ?L \<longrightarrow> \<not> move_assign_throws T (the (?b1 ! j))"
  proof (intro allI impI)
    fix j assume j: "?L - ?n \<le> j \<and> j < ?L"
    then have jk: "j < ?k" "j \<noteq> ?k" "j \<noteq> ?L" by auto
    have "the (b ! j) \<in> set (elems h v)" using mem jk(1) by simp
    then have "\<not> move_assign_throws T (the (b ! j))" using quiet by blast
    then show "\<not> move_assign_throws T (the (?b1 ! j))" using jk by simp
  qed
  from std_move_backward_loop_obs[OF h1(3) l1 nL live1 nt1]
  obtain h2 b2 where r: "std_move_backward_loop T (?p, ?L) (?p, Suc ?L) ?n h1 = Normal h2"
    "avail h2 = avail h1" "block_at h2 ?p = Some b2" "length b2 = length ?b1"
    "\<forall>j. ?L - ?n < j \<and> j \<le> ?L \<longrightarrow> b2 ! j = ?b1 ! (j - 1)"
    "b2 ! (?L - ?n) \<noteq> None"
    "\<forall>j. j < ?L - ?n \<longrightarrow> b2 ! j = ?b1 ! j"
    "\<forall>j. ?L < j \<and> j < length ?b1 \<longrightarrow> b2 ! j = ?b1 ! j"
    "\<forall>a. a \<noteq> ?p \<longrightarrow> block_at h2 a = block_at h1 a"
    by blast
  have il: "i < length b2" using r(4) i kl by simp
  have li: "b2 ! i \<noteq> None" using r(6) Ln by simp
  from assign_at_obs[OF r(3) il li]
  obtain h3 where h3: "assign_at h2 (?p, i) x = Some h3" "avail h3 = avail h2"
    "block_at h3 ?p = Some (b2[i := Some x])"
    by blast
  let ?b3 = "b2[i := Some x]"
  have en: "Vector_end v = Some (?p, ?k)"
    using room by (simp add: Vector_end_def RawMemory_plus_def)
  have idx: "RawMemory_index (m_data v) (?k - 1) = Some (?p, ?k - 1)"
    using room by (simp add: RawMemory_index_def)
  have idi: "RawMemory_index (m_data v) i = Some (?p, i)"
    using room i by (simp add: RawMemory_index_def)
  have mb: "std_move_backward T (ptr_add (Vector_begin v) i) (?p, ?k - 1) (?p, ?k) h1 = Normal h2"
    using r(1) i SL by (simp add: std_move_backward_def ptr_add_def Vector_begin_def GetAddress_def)
  have run: "EmplaceWithoutRealloc T i (Some x) (h, v) = Normal (h3, v)"
    using pos en idx h1(1) mb idi qx h3(1)
    by (simp add: EmplaceWithoutRealloc_def Let_def)
  have low: "\<forall>j. j < i \<longrightarrow> ?b3 ! j = b ! j"
  proof (intro allI impI)
    fix j assume j: "j < i"
    then have "j < ?L - ?n" using Ln by simp
    with r(7) have "b2 ! j = ?b1 ! j" by blast
    moreover have "j \<noteq> ?k" "j \<noteq> ?k - 1" "j \<noteq> i" using j i by auto
    ultimately show "?b3 ! j = b ! j" by simp
  qed
  have at: "?b3 ! i = Some x" using il by simp
  have high: "\<forall>j. i < j \<and> j \<le> ?k \<longrightarrow> ?b3 ! j = b ! (j - 1)"
  proof (intro allI impI)
    fix j assume j: "i < j \<and> j \<le> ?k"
    show "?b3 ! j = b ! (j - 1)"
    proof (cases "j = ?k")
      case True
      have "?L < ?k \<and> ?k < length ?b1" using pos kl by simp
      with r(8) have "b2 ! ?k = ?b1 ! ?k" by blast
      then have "b2 ! ?k = Some xl" using kl pos by simp
      then show ?thesis using True j xl by simp
    next
      case False
      with j have jj: "?L - ?n < j \<and> j \<le> ?L" using Ln by auto
      with r(5) have "b2 ! j = ?b1 ! (j - 1)" by blast
      moreover have "j - 1 \<noteq> ?k" "j - 1 \<noteq> ?k - 1" "j \<noteq> i" using jj j False by auto
      ultimately show ?thesis by simp
    qed
  qed
  have live3: "\<forall>j. j < ?k + 1 \<longrightarrow> ?b3 ! j \<noteq> None"
  proof (intro allI impI)
    fix j assume j: "j < ?k + 1"
    consider "j < i" | "j = i" | "i < j" by linarith
    then show "?b3 ! j \<noteq> None"
    proof cases
      case 1
      then have "?b3 ! j = b ! j" using low by blast
      moreover have "b ! j \<noteq> None" using b(3) 1 i by simp
      ultimately show ?thesis by simp
    next
      case 2
      then show ?thesis using at by simp
    next
      case 3
      then have "?b3 ! j = b ! (j - 1)" using high j by simp
      moreover have "b ! (j - 1) \<noteq> None" using b(3) 3 j by simp
      ultimately show ?thesis by simp
    qed
  qed
  have ok': "vector_ok h3 ?v'"
  proof (rule vector_okI)
    show "block_at h3 (m_buffer (m_data ?v')) = Some ?b3" using h3(3) by simp
    show "length ?b3 = m_capacity (m_data ?v')" using r(4) b(2) by simp
    show "m_size ?v' \<le> m_capacity (m_data ?v')" using room by simp
    show "\<forall>j. j < m_size ?v' \<longrightarrow> ?b3 ! j \<noteq> None" using live3 by simp
  qed
  have e3: "elems h3 ?v' = map the (take (Suc ?k) ?b3)"
    using h3(3) by (simp add: elems_def region_def)
  have l3: "Suc ?k \<le> length ?b3" using kl r(4) by simp
  have "map the (take (Suc ?k) ?b3) = take i (elems h v) @ [x] @ drop i (elems h v)"
  proof (rule insert_nth_eq)
    show "length (map the (take (Suc ?k) ?b3)) = Suc (length (elems h v))" using l3 le by simp
    show "i \<le> length (elems h v)" using i le by simp
    show "\<forall>j. j < i \<longrightarrow> map the (take (Suc ?k) ?b3) ! j = elems h v ! j"
    proof (intro allI impI)
      fix j assume j: "j < i"
      then have "map the (take (Suc ?k) ?b3) ! j = the (?b3 ! j)" using l3 i by simp
      also have "\<dots> = the (b ! j)" using low j by simp
      also have "\<dots> = elems h v ! j" unfolding el using j i kl by simp
      finally show "map the (take (Suc ?k) ?b3) ! j = elems h v ! j" .
    qed
    show "map the (take (Suc ?k) ?b3) ! i = x" using l3 i at by simp
    show "\<forall>j. i < j \<and> j \<le> length (elems h v) \<longrightarrow> map the (take (Suc ?k) ?b3) ! j = elems h v ! (j - 1)"
    proof (intro allI impI)
      fix j assume j: "i < j \<and> j \<le> length (elems h v)"
      then have jk: "i < j \<and> j \<le> ?k" using le by simp
      then have "map the (take (Suc ?k) ?b3) ! j = the (?b3 ! j)" using l3 by simp
      also have "\<dots> = the (b ! (j - 1))" using high jk by simp
      also have "\<dots> = elems h v ! (j - 1)"
      proof -
        have "j - 1 < ?k" using jk by auto
        then show ?thesis unfolding el using kl by simp
      qed
      finally show "map the (take (Suc ?k) ?b3) ! j = elems h v ! (j - 1)" .
    qed
  qed
  then have el': "elems h3 ?v' = take i (elems h v) @ [x] @ drop i (elems h v)" using e3 by simp
  have av: "avail h3 = avail h" using h3(2) r(2) h1(2) by simp
  show ?thesis using run av ok' el' by blast
qed

lemma take_length_append: "take (length xs) (xs @ ys) = xs"
  by simp

lemma EmplaceWithRealloc_ok:
  assumes ok: "vector_ok h v" and i: "i < m_size v" and full: "\<not> m_size v < m_capacity (m_data v)"
    and nw: "no_wrap T (2 * m_size v)"
    and mem: "2 * m_size v * sizeof_elem T \<le> avail h"
    and quiet: "\<forall>y\<in>set (elems h v). \<not> transfer_throws T y"
  shows "\<exists>h' d. EmplaceWithRealloc T i (Some x) (h, v) = Normal (h', v\<lparr>m_data := d\<rparr>) \<and>
           m_capacity d = 2 * m_size v \<and>
           avail h' + 2 * m_size v * sizeof_elem T =
             avail h + bytes_at h (m_buffer (m_data v)) \<and>
           vector_ok h' (v\<lparr>m_data := d, m_size := m_size v + 1\<rparr>) \<and>
           elems h' (v\<lparr>m_data := d, m_size := m_size v + 1\<rparr>) = take i (elems h v) @ [x] @ drop i (elems h v)"
proof -
  let ?p = "m_buffer (m_data v)"
  let ?k = "m_size v"
  let ?c = "2 * ?k"
  let ?np = "Suc (length (blocks h))"
  let ?d = "\<lparr>m_buffer = ?np, m_capacity = ?c\<rparr>"
  let ?v' = "v\<lparr>m_data := ?d, m_size := ?k + 1\<rparr>"
  have pos: "0 < ?k" using i by simp
  have eq: "?k = m_capacity (m_data v)" using vector_ok_size[OF ok] full by simp
  have nn: "?p \<noteq> nullptr" using ok pos by (rule vector_ok_nonempty)
  from vector_ok_block[OF ok nn] obtain b where
    b: "block_at h ?p = Some b" "length b = m_capacity (m_data v)" "\<forall>j. j < ?k \<longrightarrow> b ! j \<noteq> None"
    by blast
  have lb: "length b = ?k" using b(2) eq by simp
  have el: "elems h v = map the b" using b(1) lb by (simp add: elems_block)
  have qb: "\<And>j. j < ?k \<Longrightarrow> \<exists>y. b ! j = Some y \<and> \<not> transfer_throws T y"
  proof -
    fix j assume j: "j < ?k"
    then obtain y where y: "b ! j = Some y" using b(3) by auto
    have "map the b ! j = y" using j lb y by simp
    moreover have "j < length (map the b)" using j lb by simp
    ultimately have "y \<in> set (elems h v)" unfolding el by (metis nth_mem)
    with quiet y show "\<exists>y. b ! j = Some y \<and> \<not> transfer_throws T y" by blast
  qed
  have sz: "(if ?k = 0 then 1 else ?k * 2) = ?c" using pos by simp
  have c0: "?c \<noteq> 0" using pos by simp
  from RawMemory_sized_ok[OF mem c0 no_wrapD[OF nw]]
  obtain h1 where h1: "RawMemory_sized T ?c h = Normal (?d, h1)"
    "avail h1 = avail h - ?c * sizeof_elem T"
    "block_at h1 ?np = Some (replicate ?c None)"
    "\<forall>a. a \<noteq> ?np \<longrightarrow> block_at h1 a = block_at h a"
    "bytes_at h1 ?np = ?c * sizeof_elem T"
    "\<forall>a. a \<noteq> ?np \<longrightarrow> bytes_at h1 a = bytes_at h a"
    by blast
  have ne: "?np \<noteq> ?p" using ok by (rule vector_ok_fresh)
  have ic: "i < length (replicate ?c (None :: 'a option))" using i by simp
  let ?nb1 = "(replicate ?c None)[i := Some x]"
  from construct_at_obs[OF h1(3) ic]
  obtain h2 where h2: "construct_at h1 (?np, i) x = Some h2" "avail h2 = avail h1"
    "block_at h2 ?np = Some ?nb1" "\<forall>a. a \<noteq> ?np \<longrightarrow> block_at h2 a = block_at h1 a"
    by blast
  have src2: "block_at h2 ?p = Some b" using h2(4) h1(4) ne b(1) by simp
  have p1: "0 + i \<le> length b" "0 + i \<le> length ?nb1" using i lb by simp_all
  have q1: "\<forall>j. 0 \<le> j \<and> j < 0 + i \<longrightarrow> (\<exists>y. b ! j = Some y \<and> \<not> transfer_throws T y)"
    using qb i by simp
  from transfer_n_obs[OF src2 h2(3) ne[symmetric] p1 q1]
  obtain h3 bs1 where h3: "transfer_n T (?p, 0) i (?np, 0) h2 = Normal h3" "avail h3 = avail h2"
    "block_at h3 ?np = Some (take 0 ?nb1 @ take i (drop 0 b) @ drop (0 + i) ?nb1)"
    "block_at h3 ?p = Some bs1" "length bs1 = length b"
    "drop (0 + i) bs1 = drop (0 + i) b"
    "\<forall>j. j < length b \<and> b ! j \<noteq> None \<longrightarrow> bs1 ! j \<noteq> None"
    "\<forall>a. a \<noteq> ?np \<and> a \<noteq> ?p \<longrightarrow> block_at h3 a = block_at h2 a"
    by blast
  let ?nb2 = "take i b @ drop i ?nb1"
  have nb2: "block_at h3 ?np = Some ?nb2" using h3(3) by simp
  have ln2: "length ?nb2 = ?c" using i lb by simp
  have same1: "\<And>j. i \<le> j \<Longrightarrow> j < ?k \<Longrightarrow> bs1 ! j = b ! j"
  proof -
    fix j assume j: "i \<le> j" "j < ?k"
    have "bs1 ! j = drop i bs1 ! (j - i)" using j h3(5) lb by simp
    also have "\<dots> = drop i b ! (j - i)" using h3(6) by simp
    also have "\<dots> = b ! j" using j lb by simp
    finally show "bs1 ! j = b ! j" .
  qed
  have p2: "i + (?k - i) \<le> length bs1" "Suc i + (?k - i) \<le> length ?nb2"
    using i lb h3(5) ln2 by simp_all
  have q2: "\<forall>j. i \<le> j \<and> j < i + (?k - i) \<longrightarrow> (\<exists>y. bs1 ! j = Some y \<and> \<not> transfer_throws T y)"
  proof (intro allI impI)
    fix j assume j: "i \<le> j \<and> j < i + (?k - i)"
    then have jk: "i \<le> j" "j < ?k" using i by auto
    show "\<exists>y. bs1 ! j = Some y \<and> \<not> transfer_throws T y"
      using qb[OF jk(2)] same1[OF jk] by simp
  qed
  from transfer_n_obs[OF h3(4) nb2 ne[symmetric] p2 q2]
  obtain h4 bs2 where h4: "transfer_n T (?p, i) (?k - i) (?np, Suc i) h3 = Normal h4" "avail h4 = avail h3"
    "block_at h4 ?np = Some (take (Suc i) ?nb2 @ take (?k - i) (drop i bs1) @ drop (Suc i + (?k - i)) ?nb2)"
    "block_at h4 ?p = Some bs2" "length bs2 = length bs1"
    "\<forall>j. j < length bs1 \<and> bs1 ! j \<noteq> None \<longrightarrow> bs2 ! j \<noteq> None"
    "\<forall>a. a \<noteq> ?np \<and> a \<noteq> ?p \<longrightarrow> block_at h4 a = block_at h3 a"
    by blast
  have l5: "0 + ?k \<le> length bs2" using h4(5) h3(5) lb by simp
  have live5: "\<forall>j. 0 \<le> j \<and> j < 0 + ?k \<longrightarrow> bs2 ! j \<noteq> None"
  proof (intro allI impI)
    fix j assume "0 \<le> j \<and> j < 0 + ?k"
    then have j: "j < ?k" by simp
    then have "b ! j \<noteq> None" using b(3) by blast
    then have "bs1 ! j \<noteq> None" using h3(7) j lb by simp
    then show "bs2 ! j \<noteq> None" using h4(6) j lb h3(5) by simp
  qed
  from destroy_n_obs[OF h4(4) l5 live5]
  obtain h5 where h5: "destroy_n (?p, 0) ?k h4 = Some h5" "avail h5 = avail h4"
    "block_at h5 ?p = Some (take 0 bs2 @ replicate ?k None @ drop (0 + ?k) bs2)"
    "\<forall>a. a \<noteq> ?p \<longrightarrow> block_at h5 a = block_at h4 a"
    by blast
  from RawMemory_dtor_ok[OF h5(3)]
  obtain h6 where h6: "RawMemory_dtor (m_data v) h5 = Some h6"
    "avail h6 = avail h5 + bytes_at h5 ?p"
    "\<forall>a. a \<noteq> ?p \<longrightarrow> block_at h6 a = block_at h5 a"
    by blast
  have "bytes_at h5 = bytes_at h1"
    using destroy_n_bytes[OF h5(1)] transfer_n_bytes[of T "(?p, i)" "?k - i" "(?np, Suc i)" h3 h4]
      transfer_n_bytes[of T "(?p, 0)" i "(?np, 0)" h2 h3] construct_at_bytes[OF h2(1)] h3(1) h4(1)
    by simp
  then have byp: "bytes_at h5 ?p = bytes_at h ?p"
    using h1(6) ne by simp
  have h1': "RawMemory_sized T (?k * 2) h = Normal (?d, h1)"
    using h1(1) by (simp add: mult.commute)
  have run: "EmplaceWithRealloc T i (Some x) (h, v) = Normal (h6, v\<lparr>m_data := ?d\<rparr>)"
    using sz h1' i h2(1) h3(1) h4(1) h5(1) h6(1)
    by (simp add: EmplaceWithRealloc_def Let_def RawMemory_plus_def GetAddress_def ptr_add_def
        RawMemory_Swap_def)
  have av: "avail h6 + ?c * sizeof_elem T = avail h + bytes_at h ?p"
    using h6(2) h5(2) h4(2) h3(2) h2(2) h1(2) byp mem by simp
  have dr1: "drop i ?nb1 = Some x # replicate (?c - Suc i) None"
  proof -
    have "drop i ?nb1 = ?nb1 ! i # drop (Suc i) ?nb1"
      using ic by (intro Cons_nth_drop_Suc[symmetric]) simp
    then show ?thesis using ic by simp
  qed
  have t1: "take (Suc i) ?nb2 = take i b @ [Some x]"
    using i lb dr1 by simp
  have t2: "take (?k - i) (drop i bs1) = drop i b"
    using h3(6) lb by simp
  have t3: "drop (Suc i + (?k - i)) ?nb2 = replicate (?k - 1) None"
  proof -
    have a: "Suc i + (?k - i) - i = Suc (?k - i)" using i by simp
    have "drop (Suc i + (?k - i)) ?nb2 = drop (Suc (?k - i)) (Some x # replicate (?c - Suc i) None)"
      using i lb dr1 a by simp
    also have "\<dots> = replicate (?c - Suc i - (?k - i)) None" by simp
    also have "?c - Suc i - (?k - i) = ?k - 1" using i by simp
    finally show ?thesis .
  qed
  let ?nb3 = "take i b @ [Some x] @ drop i b @ replicate (?k - 1) None"
  have blk: "block_at h6 ?np = Some ?nb3"
    using h6(3) h5(4) h4(3) ne t1 t2 t3 by simp
  have ln3: "length ?nb3 = ?c" using i lb by simp
  let ?A = "take i b @ [Some x] @ drop i b"
  have lA: "length ?A = Suc ?k" using i lb by simp
  have "take (length ?A) (?A @ replicate (?k - 1) None) = ?A" by (rule take_length_append)
  then have "take (Suc ?k) (?A @ replicate (?k - 1) None) = ?A" by (simp only: lA)
  moreover have "?nb3 = ?A @ replicate (?k - 1) None" by simp
  ultimately have tk: "take (Suc ?k) ?nb3 = ?A" by (simp only:)
  have ok': "vector_ok h6 ?v'"
  proof (rule vector_okI)
    show "block_at h6 (m_buffer (m_data ?v')) = Some ?nb3" using blk by simp
    show "length ?nb3 = m_capacity (m_data ?v')" using ln3 by simp
    show "m_size ?v' \<le> m_capacity (m_data ?v')" using pos by simp
    show "\<forall>j. j < m_size ?v' \<longrightarrow> ?nb3 ! j \<noteq> None"
    proof (intro allI impI)
      fix j assume "j < m_size ?v'"
      then have j: "j < Suc ?k" by simp
      have "take (Suc ?k) ?nb3 ! j = ?nb3 ! j" using j by (rule nth_take)
      then have "?nb3 ! j = take (Suc ?k) ?nb3 ! j" by (rule sym)
      then have "?nb3 ! j = (take i b @ [Some x] @ drop i b) ! j" unfolding tk .
      moreover have "(take i b @ [Some x] @ drop i b) ! j \<noteq> None"
      proof (cases "j < i")
        case True
        then show ?thesis using b(3) i lb by (simp add: nth_append)
      next
        case False
        show ?thesis
        proof (cases "j = i")
          case True
          then show ?thesis using i lb by (simp add: nth_append)
        next
          case ne: False
          with False j have a: "j - i = Suc (j - Suc i)" "i + (j - Suc i) < ?k" by auto
          have "(take i b @ [Some x] @ drop i b) ! j = b ! (i + (j - Suc i))"
            using False a i lb by (simp add: nth_append)
          then show ?thesis using b(3) a(2) by simp
        qed
      qed
      ultimately show "?nb3 ! j \<noteq> None" by simp
    qed
  qed
  have "elems h6 ?v' = map the (take (Suc ?k) ?nb3)"
    using blk by (simp add: elems_def region_def)
  also have "take (Suc ?k) ?nb3 = take i b @ [Some x] @ drop i b" by (rule tk)
  also have "map the (take i b @ [Some x] @ drop i b) = take i (elems h v) @ [x] @ drop i (elems h v)"
    unfolding el by (simp add: take_map drop_map)
  finally have el': "elems h6 ?v' = take i (elems h v) @ [x] @ drop i (elems h v)" .
  show ?thesis
    using run av ok' el' by (intro exI[of _ h6] exI[of _ ?d]) simp
qed

lemma read_elem_elems:
  assumes ok: "vector_ok h v" and j: "j < m_size v"
  shows "read_elem h (at_offset v j) = Some (elems h v ! j)"
proof -
  have pos: "0 < m_size v" using j by simp
  have nn: "m_buffer (m_data v) \<noteq> nullptr" using ok pos by (rule vector_ok_nonempty)
  from vector_ok_block[OF ok nn] obtain b where
    b: "block_at h (m_buffer (m_data v)) = Some b" "length b = m_capacity (m_data v)"
       "\<forall>j. j < m_size v \<longrightarrow> b ! j \<noteq> None"
    by blast
  have jl: "j < length b" using j vector_ok_size[OF ok] b(2) by simp
  have "b ! j \<noteq> None" using b(3) j by blast
  then obtain y where y: "b ! j = Some y" by auto
  have "elems h v ! j = y" using b(1) j jl y by (simp add: elems_block)
  then show ?thesis using b(1) jl y by (simp add: at_offset_simp read_elem_block)
qed

lemma Emplace_ok:
  assumes ok: "vector_ok h v" and i: "i \<le> m_size v"
    and mem: "m_size v < m_capacity (m_data v) \<or>
      no_wrap T (max 1 (2 * m_size v)) \<and> max 1 (2 * m_size v) * sizeof_elem T \<le> avail h"
    and quiet: "\<forall>y\<in>set (elems h v). \<not> move_fails T y \<and> \<not> transfer_throws T y \<and> \<not> move_assign_throws T y"
    and qx: "\<not> move_assign_throws T x"
  shows "\<exists>h' v'. Emplace T (at_offset v i) (Some x) (h, v) = Normal ((h', v'), at_offset v' i) \<and>
           vector_ok h' v' \<and> m_size v' = m_size v + 1 \<and>
           elems h' v' = take i (elems h v) @ [x] @ drop i (elems h v)"
proof -
  let ?p = "m_buffer (m_data v)"
  let ?k = "m_size v"
  have kc: "?k \<le> m_capacity (m_data v)" using ok by (rule vector_ok_size)
  have le: "length (elems h v) = ?k" using ok by (rule length_elems)
  have en: "Vector_end v = Some (?p, ?k)"
    using kc by (simp add: Vector_end_def RawMemory_plus_def)
  have qt: "\<forall>y\<in>set (elems h v). \<not> transfer_throws T y" using quiet by blast
  have qm: "\<forall>y\<in>set (elems h v). \<not> move_fails T y \<and> \<not> move_assign_throws T y" using quiet by blast
  show ?thesis
  proof (cases "i = ?k")
    case True
    have pe: "at_offset v i = (?p, ?k)" using True by (simp add: at_offset_simp)
    have em: "Emplace T (at_offset v i) (Some x) (h, v) = EmplaceBack T (Some x) (h, v)"
      using en pe by (simp add: Emplace_def)
    have app: "elems h v @ [x] = take i (elems h v) @ [x] @ drop i (elems h v)"
      using True le by simp
    show ?thesis
    proof (cases "?k < m_capacity (m_data v)")
      case room: True
      let ?v' = "v\<lparr>m_size := ?k + 1\<rparr>"
      from EmplaceBack_in_place[OF ok room, of T x]
      obtain h' where r: "EmplaceBack T (Some x) (h, v) = Normal ((h', ?v'), (?p, ?k))"
        "vector_ok h' ?v'" "elems h' ?v' = elems h v @ [x]"
        by blast
      have "at_offset ?v' i = (?p, ?k)" using True by (simp add: at_offset_simp)
      then show ?thesis
        using em r app by (intro exI[of _ h'] exI[of _ ?v']) simp
    next
      case full: False
      then have eq: "?k = m_capacity (m_data v)" using kc by simp
      have wm: "no_wrap T (max 1 (2 * m_capacity (m_data v)))" using mem full eq by simp
      have m: "max 1 (2 * m_capacity (m_data v)) * sizeof_elem T \<le> avail h"
        using mem full eq by simp
      from EmplaceBack_grow[OF ok full wm m qt, of x]
      obtain h' d where r: "EmplaceBack T (Some x) (h, v) =
          Normal ((h', \<lparr>m_size = ?k + 1, m_data = d\<rparr>), (m_buffer d, ?k))"
        "vector_ok h' \<lparr>m_size = ?k + 1, m_data = d\<rparr>"
        "elems h' \<lparr>m_size = ?k + 1, m_data = d\<rparr> = elems h v @ [x]"
        by blast
      have "at_offset \<lparr>m_size = ?k + 1, m_data = d\<rparr> i = (m_buffer d, ?k)"
        using True by (simp add: at_offset_simp)
      then show ?thesis
        using em r app by (intro exI[of _ h'] exI[of _ "\<lparr>m_size = ?k + 1, m_data = d\<rparr>"]) simp
    qed
  next
    case False
    then have il: "i < ?k" using i by simp
    have pne: "at_offset v i \<noteq> (?p, ?k)" using False by (simp add: at_offset_simp)
    have dist: "distance (Vector_begin v) (at_offset v i) = Some i"
      by (simp add: distance_def at_offset_simp Vector_begin_def GetAddress_def)
    show ?thesis
    proof (cases "?k < m_capacity (m_data v)")
      case room: True
      let ?v' = "v\<lparr>m_size := ?k + 1\<rparr>"
      from EmplaceWithoutRealloc_ok[OF ok il room qm qx]
      obtain h' where r: "EmplaceWithoutRealloc T i (Some x) (h, v) = Normal (h', v)"
        "vector_ok h' ?v'" "elems h' ?v' = take i (elems h v) @ [x] @ drop i (elems h v)"
        by blast
      have room': "?k < Capacity (m_data v)" using room by (simp add: Capacity_def)
      have run: "Emplace T (at_offset v i) (Some x) (h, v) = Normal ((h', ?v'), at_offset ?v' i)"
        using en pne dist room' r(1) by (simp add: Emplace_def Let_def at_offset_def)
      show ?thesis
        using run r(2,3) by (intro exI[of _ h'] exI[of _ ?v']) simp
    next
      case full: False
      have k2: "max 1 (2 * ?k) = 2 * ?k" using il by simp
      have wm: "no_wrap T (2 * ?k)" using mem full k2 by simp
      have m: "2 * ?k * sizeof_elem T \<le> avail h" using mem full k2 by simp
      from EmplaceWithRealloc_ok[OF ok il full wm m qt, of x]
      obtain h' d where r: "EmplaceWithRealloc T i (Some x) (h, v) = Normal (h', v\<lparr>m_data := d\<rparr>)"
        "vector_ok h' (v\<lparr>m_data := d, m_size := ?k + 1\<rparr>)"
        "elems h' (v\<lparr>m_data := d, m_size := ?k + 1\<rparr>) = take i (elems h v) @ [x] @ drop i (elems h v)"
        by blast
      let ?v' = "v\<lparr>m_data := d, m_size := ?k + 1\<rparr>"
      have full': "\<not> ?k < Capacity (m_data v)" using full by (simp add: Capacity_def)
      have run: "Emplace T (at_offset v i) (Some x) (h, v) = Normal ((h', ?v'), at_offset ?v' i)"
        using en pne dist full' r(1) by (simp add: Emplace_def Let_def at_offset_def)
      show ?thesis
        using run r(2,3) by (intro exI[of _ h'] exI[of _ ?v']) simp
    qed
  qed
qed

text \<open>C5. For a well-formed vector of size \<open>k\<close>, an offset \<open>i \<le> k\<close> and a value \<open>x\<close>, where
  no move construction, transfer or move assignment of the values involved throws and,
  if the vector is full, the bytes of \<open>max 1 (2 k)\<close> objects are a value of \<^verbatim>\<open>size_t\<close>
  that the allocator can hand out: \<^verbatim>\<open>Emplace\<close> at offset \<open>i\<close>
  (and \<^verbatim>\<open>Insert\<close>, when copying \<open>x\<close> does not throw) returns the position at offset \<open>i\<close> of
  the vector afterwards, which holds \<open>x\<close>; the size is \<open>k + 1\<close>, the elements before \<open>i\<close>
  are unchanged and the element that was at \<open>j \<ge> i\<close> is at \<open>j + 1\<close>.\<close>

theorem Emplace_spec:
  assumes ok: "vector_ok h v" and i: "i \<le> m_size v"
    and mem: "m_size v < m_capacity (m_data v) \<or>
      no_wrap T (max 1 (2 * m_size v)) \<and> max 1 (2 * m_size v) * sizeof_elem T \<le> avail h"
    and quiet: "\<forall>y\<in>set (elems h v). \<not> move_fails T y \<and> \<not> transfer_throws T y \<and> \<not> move_assign_throws T y"
    and qx: "\<not> move_assign_throws T x"
  shows "\<exists>h' v'. Emplace T (at_offset v i) (Some x) (h, v) = Normal ((h', v'), at_offset v' i) \<and>
           (\<not> copy_throws T x \<longrightarrow> Insert T (at_offset v i) x (h, v) = Normal ((h', v'), at_offset v' i)) \<and>
           read_elem h' (at_offset v' i) = Some x \<and>
           vector_ok h' v' \<and> m_size v' = m_size v + 1 \<and> length (elems h' v') = m_size v + 1 \<and>
           elems h' v' = take i (elems h v) @ [x] @ drop i (elems h v) \<and>
           elems h' v' ! i = x \<and>
           (\<forall>j. j < i \<longrightarrow> elems h' v' ! j = elems h v ! j) \<and>
           (\<forall>j. i \<le> j \<and> j < m_size v \<longrightarrow> elems h' v' ! Suc j = elems h v ! j)"
proof -
  from Emplace_ok[OF ok i mem quiet qx]
  obtain h' v' where r: "Emplace T (at_offset v i) (Some x) (h, v) = Normal ((h', v'), at_offset v' i)"
    "vector_ok h' v'" "m_size v' = m_size v + 1"
    "elems h' v' = take i (elems h v) @ [x] @ drop i (elems h v)"
    by blast
  have le: "length (elems h v) = m_size v" using ok by (rule length_elems)
  have ins: "\<not> copy_throws T x \<longrightarrow> Insert T (at_offset v i) x (h, v) = Normal ((h', v'), at_offset v' i)"
    using r(1) by (simp add: Insert_def)
  have len: "length (elems h' v') = m_size v + 1" using length_elems[OF r(2)] r(3) by simp
  have at: "elems h' v' ! i = x" unfolding r(4) using i le by (simp add: nth_append)
  have "i < m_size v'" using i r(3) by simp
  from read_elem_elems[OF r(2) this] at
  have rd: "read_elem h' (at_offset v' i) = Some x" by simp
  have low: "\<forall>j. j < i \<longrightarrow> elems h' v' ! j = elems h v ! j"
    unfolding r(4) using i le by (simp add: nth_append)
  have high: "\<forall>j. i \<le> j \<and> j < m_size v \<longrightarrow> elems h' v' ! Suc j = elems h v ! j"
  proof (intro allI impI)
    fix j assume j: "i \<le> j \<and> j < m_size v"
    then have a: "\<not> Suc j < i" "Suc j - i = Suc (j - i)" "i + (j - i) = j" by auto
    have "(take i (elems h v) @ [x] @ drop i (elems h v)) ! Suc j = (x # drop i (elems h v)) ! (Suc j - i)"
      using a(1) i le by (simp add: nth_append)
    also have "\<dots> = drop i (elems h v) ! (j - i)" using a(2) by simp
    also have "\<dots> = elems h v ! j" using a(3) i le by simp
    finally show "elems h' v' ! Suc j = elems h v ! j" unfolding r(4) .
  qed
  show ?thesis
    using r ins rd len at low high by blast
qed

theorem Emplace_spec_witness:
  "vector_ok (fst one_vector) (snd one_vector) \<and> 2 \<le> m_size (snd one_vector) \<and>
   m_size (snd one_vector) < m_capacity (m_data (snd one_vector)) \<and>
   (\<exists>h' v'. Insert int_type (at_offset (snd one_vector) 2) 3 one_vector = Normal ((h', v'), at_offset v' 2) \<and>
      read_elem h' (at_offset v' 2) = Some 3 \<and> m_size v' = 4 \<and> elems h' v' = [1, 2, 3, 4])"
proof -
  have i: "2 \<le> m_size (snd one_vector)" by (simp add: one_vector_def)
  have room: "m_size (snd one_vector) < m_capacity (m_data (snd one_vector))"
    by (simp add: one_vector_def)
  then have mem: "m_size (snd one_vector) < m_capacity (m_data (snd one_vector)) \<or>
      no_wrap int_type (max 1 (2 * m_size (snd one_vector))) \<and>
      max 1 (2 * m_size (snd one_vector)) * sizeof_elem int_type \<le> avail (fst one_vector)" by simp
  have q: "\<forall>y\<in>set (elems (fst one_vector) (snd one_vector)).
      \<not> move_fails int_type y \<and> \<not> transfer_throws int_type y \<and> \<not> move_assign_throws int_type y"
    by simp
  have qx: "\<not> move_assign_throws int_type 3" by simp
  have s: "m_size (snd one_vector) + 1 = 4" by (simp add: one_vector_def)
  from Emplace_spec[OF one_vector_ok i mem q qx]
  obtain h' v' where r:
    "\<not> copy_throws int_type 3 \<longrightarrow>
       Insert int_type (at_offset (snd one_vector) 2) 3 (fst one_vector, snd one_vector) = Normal ((h', v'), at_offset v' 2)"
    "read_elem h' (at_offset v' 2) = Some 3" "m_size v' = m_size (snd one_vector) + 1"
    "elems h' v' = take 2 (elems (fst one_vector) (snd one_vector)) @ [3] @ drop 2 (elems (fst one_vector) (snd one_vector))"
    by blast
  have "Insert int_type (at_offset (snd one_vector) 2) 3 one_vector = Normal ((h', v'), at_offset v' 2) \<and>
      read_elem h' (at_offset v' 2) = Some 3 \<and> m_size v' = 4 \<and> elems h' v' = [1, 2, 3, 4]"
    using r unfolding s one_vector_elems by (simp add: numeral_2_eq_2)
  then show ?thesis using one_vector_ok i room by blast
qed

text \<open>C7. Under the hypotheses of C5, with a copy of \<open>x\<close> that does not throw:
  \<^verbatim>\<open>Insert\<close> at offset \<open>i\<close> returns a position, \<^verbatim>\<open>Erase\<close> at that position returns, and
  the vector then has the size and the elements, in the same order, that it had before
  the two calls.\<close>

theorem Insert_Erase_roundtrip:
  assumes ok: "vector_ok h v" and i: "i \<le> m_size v"
    and mem: "m_size v < m_capacity (m_data v) \<or>
      no_wrap T (max 1 (2 * m_size v)) \<and> max 1 (2 * m_size v) * sizeof_elem T \<le> avail h"
    and quiet: "\<forall>y\<in>set (elems h v). \<not> move_fails T y \<and> \<not> transfer_throws T y \<and> \<not> move_assign_throws T y"
    and qx: "\<not> move_assign_throws T x" and cx: "\<not> copy_throws T x"
  shows "\<exists>h1 v1 p h2 v2 q. Insert T (at_offset v i) x (h, v) = Normal ((h1, v1), p) \<and>
           p = at_offset v1 i \<and>
           Erase T p (h1, v1) = Normal ((h2, v2), q) \<and>
           vector_ok h2 v2 \<and> m_size v2 = m_size v \<and> elems h2 v2 = elems h v"
proof -
  from Emplace_ok[OF ok i mem quiet qx]
  obtain h1 v1 where r: "Emplace T (at_offset v i) (Some x) (h, v) = Normal ((h1, v1), at_offset v1 i)"
    "vector_ok h1 v1" "m_size v1 = m_size v + 1"
    "elems h1 v1 = take i (elems h v) @ [x] @ drop i (elems h v)"
    by blast
  have ins: "Insert T (at_offset v i) x (h, v) = Normal ((h1, v1), at_offset v1 i)"
    using r(1) cx by (simp add: Insert_def)
  have le: "length (elems h v) = m_size v" using ok by (rule length_elems)
  have i1: "i < m_size v1" using i r(3) by simp
  have dr: "drop (Suc i) (elems h1 v1) = drop i (elems h v)"
    unfolding r(4) using i le by simp
  have tk: "take i (elems h1 v1) = take i (elems h v)"
    unfolding r(4) using i le by simp
  let ?v2 = "v1\<lparr>m_size := m_size v1 - 1\<rparr>"
  have nothrow: "\<not> (\<exists>y\<in>set (drop (Suc i) (elems h1 v1)). move_assign_throws T y)"
    unfolding dr using quiet by (auto dest: in_set_dropD)
  from Erase_obs[OF r(2) i1, of T] nothrow
  obtain h2 where e: "Erase T (at_offset v1 i) (h1, v1) = Normal ((h2, ?v2), at_offset v1 i)"
    "vector_ok h2 ?v2" "elems h2 ?v2 = take i (elems h1 v1) @ drop (Suc i) (elems h1 v1)"
    by blast
  have "elems h2 ?v2 = elems h v" using e(3) dr tk by simp
  moreover have "m_size ?v2 = m_size v" using r(3) by simp
  ultimately show ?thesis using ins e(1,2) by blast
qed

theorem Insert_Erase_roundtrip_witness:
  "vector_ok (fst full_vector) (snd full_vector) \<and> 1 \<le> m_size (snd full_vector) \<and>
   no_wrap int_type (max 1 (2 * m_size (snd full_vector))) \<and>
   max 1 (2 * m_size (snd full_vector)) * sizeof_elem int_type \<le> avail (fst full_vector) \<and>
   (\<exists>h1 v1 p h2 v2 q. Insert int_type (at_offset (snd full_vector) 1) 9 full_vector = Normal ((h1, v1), p) \<and>
      Erase int_type p (h1, v1) = Normal ((h2, v2), q) \<and> m_size v2 = 2 \<and> elems h2 v2 = [7, 13])"
proof -
  have i: "1 \<le> m_size (snd full_vector)" by (simp add: full_vector_def)
  have w: "no_wrap int_type (max 1 (2 * m_size (snd full_vector)))"
    by (simp add: full_vector_def no_wrap_def)
  have m: "max 1 (2 * m_size (snd full_vector)) * sizeof_elem int_type \<le> avail (fst full_vector)"
    by (simp add: full_vector_def)
  have mem: "m_size (snd full_vector) < m_capacity (m_data (snd full_vector)) \<or>
      no_wrap int_type (max 1 (2 * m_size (snd full_vector))) \<and>
      max 1 (2 * m_size (snd full_vector)) * sizeof_elem int_type \<le> avail (fst full_vector)"
    using w m by simp
  have q: "\<forall>y\<in>set (elems (fst full_vector) (snd full_vector)).
      \<not> move_fails int_type y \<and> \<not> transfer_throws int_type y \<and> \<not> move_assign_throws int_type y"
    by simp
  have qx: "\<not> move_assign_throws int_type 9" and cx: "\<not> copy_throws int_type 9" by simp_all
  have s: "m_size (snd full_vector) = 2" by (simp add: full_vector_def)
  from Insert_Erase_roundtrip[OF full_vector_ok i mem q qx cx]
  obtain h1 v1 p h2 v2 q where r:
    "Insert int_type (at_offset (snd full_vector) 1) 9 (fst full_vector, snd full_vector) = Normal ((h1, v1), p)"
    "Erase int_type p (h1, v1) = Normal ((h2, v2), q)"
    "m_size v2 = m_size (snd full_vector)"
    "elems h2 v2 = elems (fst full_vector) (snd full_vector)"
    by blast
  have r1: "Insert int_type (at_offset (snd full_vector) 1) 9 full_vector = Normal ((h1, v1), p)"
    using r(1) by simp
  have r3: "m_size v2 = 2" using r(3) s by simp
  have r4: "elems h2 v2 = [7, 13]" using r(4) full_vector_elems by simp
  have "\<exists>h1 v1 p h2 v2 q. Insert int_type (at_offset (snd full_vector) 1) 9 full_vector = Normal ((h1, v1), p) \<and>
      Erase int_type p (h1, v1) = Normal ((h2, v2), q) \<and> m_size v2 = 2 \<and> elems h2 v2 = [7, 13]"
    using r1 r(2) r3 r4 by blast
  then show ?thesis using full_vector_ok i w m by blast
qed

end
